theory Spec2Isabelle
  imports Main "HOL-Library.Multiset"
begin

section \<open>Regular expressions of the pattern table\<close>

text \<open>
  The package recognises timestamps with six regular expressions compiled by
  \<^verbatim>\<open>regexp.MustCompile\<close>.  The syntax tree below covers the
  constructs these six patterns use: the anchors \<^verbatim>\<open>^\<close> and
  \<^verbatim>\<open>$\<close>, literals, character classes given by their ranges,
  concatenation, alternation, the greedy option \<^verbatim>\<open>?\<close> and numbered
  capture groups.  A non-capturing group \<^verbatim>\<open>(?:...)\<close> is plain
  grouping.  Strings are byte lists; every class of the patterns is ASCII, so a byte
  above 127 matches no class, as the rune it belongs to matches none in Go.
\<close>

datatype rx =
    Bol
  | Eol
  | Emp
  | Lit char
  | Cls "(char \<times> char) list"
  | Seq rx rx
  | Alt rx rx
  | Opt rx
  | Cap nat rx

type_synonym caps = "nat \<Rightarrow> string option"

definition in_ranges :: "(char \<times> char) list \<Rightarrow> char \<Rightarrow> bool" where
  "in_ranges rs x =
     list_ex (\<lambda>(lo, hi). (of_char lo :: int) \<le> of_char x \<and> (of_char x :: int) \<le> of_char hi) rs"

text \<open>
  The matcher is a backtracking one: \<open>rmatch r n s c\<close> lists, in the order of
  preference of Go's leftmost-first semantics, every way \<open>r\<close> can match a prefix of
  the remaining input \<open>s\<close> at offset \<open>n\<close> of the text, with the new offset, the
  rest of the input and the captures extended from \<open>c\<close>.
\<close>

fun rmatch :: "rx \<Rightarrow> nat \<Rightarrow> string \<Rightarrow> caps \<Rightarrow> (nat \<times> string \<times> caps) list" where
  "rmatch Bol n s c = (if n = 0 then [(n, s, c)] else [])"
| "rmatch Eol n s c = (if s = [] then [(n, s, c)] else [])"
| "rmatch Emp n s c = [(n, s, c)]"
| "rmatch (Lit a) n s c =
     (case s of [] \<Rightarrow> [] | x # xs \<Rightarrow> if x = a then [(Suc n, xs, c)] else [])"
| "rmatch (Cls rs) n s c =
     (case s of [] \<Rightarrow> [] | x # xs \<Rightarrow> if in_ranges rs x then [(Suc n, xs, c)] else [])"
| "rmatch (Seq a b) n s c =
     concat (map (\<lambda>(n', s', c'). rmatch b n' s' c') (rmatch a n s c))"
| "rmatch (Alt a b) n s c = rmatch a n s c @ rmatch b n s c"
| "rmatch (Opt a) n s c = rmatch a n s c @ [(n, s, c)]"
| "rmatch (Cap i a) n s c =
     map (\<lambda>(n', s', c'). (n', s', c'(i \<mapsto> take (n' - n) s))) (rmatch a n s c)"

text \<open>
  An unanchored search tries the start offsets from left to right and takes the
  preferred match at the first offset that has one.
\<close>

fun search_from :: "rx \<Rightarrow> nat \<Rightarrow> string \<Rightarrow> (nat \<times> nat \<times> caps) option" where
  "search_from re n s =
     (case rmatch re n s Map.empty of
        (n', _, c) # _ \<Rightarrow> Some (n, n', c)
      | [] \<Rightarrow> (case s of [] \<Rightarrow> None | _ # s' \<Rightarrow> search_from re (Suc n) s'))"

fun NumSubexp :: "rx \<Rightarrow> nat" where
  "NumSubexp (Seq a b) = NumSubexp a + NumSubexp b"
| "NumSubexp (Alt a b) = NumSubexp a + NumSubexp b"
| "NumSubexp (Opt a) = NumSubexp a"
| "NumSubexp (Cap i a) = Suc (NumSubexp a)"
| "NumSubexp _ = 0"

definition MatchString :: "rx \<Rightarrow> string \<Rightarrow> bool" where
  "MatchString re s = (search_from re 0 s \<noteq> None)"

text \<open>
  \<^verbatim>\<open>FindStringSubmatch\<close> returns the text of the match followed by the text of
  each group, the empty string for a group that took no part in the match, and
  \<^verbatim>\<open>nil\<close> (here the empty list) when there is no match.
\<close>

definition FindStringSubmatch :: "rx \<Rightarrow> string \<Rightarrow> string list" where
  "FindStringSubmatch re s =
     (case search_from re 0 s of
        None \<Rightarrow> []
      | Some (b, e, c) \<Rightarrow>
          take (e - b) (drop b s) #
          map (\<lambda>i. case c i of None \<Rightarrow> [] | Some w \<Rightarrow> w) [1 ..< Suc (NumSubexp re)])"

subsection \<open>Repetition and concatenation\<close>

text \<open>
  \<^verbatim>\<open>x{n,m}\<close> is \<open>n\<close> copies of \<open>x\<close> followed by \<open>m - n\<close> nested greedy
  options, \<^verbatim>\<open>x{2,5} = xx(x(x(x)?)?)?\<close>.
\<close>

fun opts :: "rx \<Rightarrow> nat \<Rightarrow> rx" where
  "opts r 0 = Emp"
| "opts r (Suc k) = Opt (Seq r (opts r k))"

fun copies :: "rx \<Rightarrow> nat \<Rightarrow> rx \<Rightarrow> rx" where
  "copies r 0 t = t"
| "copies r (Suc k) t = Seq r (copies r k t)"

definition Rep :: "rx \<Rightarrow> nat \<Rightarrow> nat \<Rightarrow> rx" where
  "Rep r lo hi = copies r lo (opts r (hi - lo))"

fun cat :: "rx list \<Rightarrow> rx" where
  "cat [] = Emp"
| "cat (r # rs) = Seq r (cat rs)"

subsection \<open>The six patterns of \<^verbatim>\<open>init\<close>\<close>

definition rx_digit :: rx where
  \<comment> \<open>\<^verbatim>\<open>[0-9]\<close>\<close>
  "rx_digit = Cls [(CHR ''0'', CHR ''9'')]"

definition rx_year :: rx where
  \<comment> \<open>\<^verbatim>\<open>[0-9]{4}\<close>\<close>
  "rx_year = Rep rx_digit 4 4"

definition rx_month :: rx where
  \<comment> \<open>\<^verbatim>\<open>0[1-9]|1[0-2]\<close>\<close>
  "rx_month = Alt (Seq (Lit CHR ''0'') (Cls [(CHR ''1'', CHR ''9'')]))
                  (Seq (Lit CHR ''1'') (Cls [(CHR ''0'', CHR ''2'')]))"

definition rx_day :: rx where
  \<comment> \<open>\<^verbatim>\<open>0[1-9]|[12][0-9]|3[01]\<close>\<close>
  "rx_day = Alt (Seq (Lit CHR ''0'') (Cls [(CHR ''1'', CHR ''9'')]))
           (Alt (Seq (Cls [(CHR ''1'', CHR ''1''), (CHR ''2'', CHR ''2'')]) rx_digit)
                (Seq (Lit CHR ''3'') (Cls [(CHR ''0'', CHR ''0''), (CHR ''1'', CHR ''1'')])))"

definition rx_sep :: rx where
  \<comment> \<open>\<^verbatim>\<open>[Tt ]\<close>\<close>
  "rx_sep = Cls [(CHR ''T'', CHR ''T''), (CHR ''t'', CHR ''t''), (CHR '' '', CHR '' '')]"

definition rx_hour :: rx where
  \<comment> \<open>\<^verbatim>\<open>[01][0-9]|2[0-3]\<close>\<close>
  "rx_hour = Alt (Seq (Cls [(CHR ''0'', CHR ''0''), (CHR ''1'', CHR ''1'')]) rx_digit)
                 (Seq (Lit CHR ''2'') (Cls [(CHR ''0'', CHR ''3'')]))"

definition rx_minute :: rx where
  \<comment> \<open>\<^verbatim>\<open>[0-5][0-9]\<close>\<close>
  "rx_minute = Seq (Cls [(CHR ''0'', CHR ''5'')]) rx_digit"

definition rx_second :: rx where
  \<comment> \<open>\<^verbatim>\<open>[0-5][0-9]|6[01]\<close>\<close>
  "rx_second = Alt (Seq (Cls [(CHR ''0'', CHR ''5'')]) rx_digit)
                   (Seq (Lit CHR ''6'') (Cls [(CHR ''0'', CHR ''0''), (CHR ''1'', CHR ''1'')]))"

definition rx_frac :: rx where
  \<comment> \<open>\<^verbatim>\<open>(?:[.,]([0-9]{1,9}))?\<close>, whose group is the seventh\<close>
  "rx_frac = Opt (Seq (Cls [(CHR ''.'', CHR ''.''), (CHR '','', CHR '','')])
                      (Cap 7 (Rep rx_digit 1 9)))"

definition rx_tz :: rx where
  \<comment> \<open>\<^verbatim>\<open>Z|[-+][01][0-9]:?(?:[0-5][0-9])?\<close>\<close>
  "rx_tz = Alt (Lit CHR ''Z'')
               (cat [Cls [(CHR ''-'', CHR ''-''), (CHR ''+'', CHR ''+'')],
                     Cls [(CHR ''0'', CHR ''0''), (CHR ''1'', CHR ''1'')],
                     rx_digit,
                     Opt (Lit CHR '':''),
                     Opt (Seq (Cls [(CHR ''0'', CHR ''5'')]) rx_digit)])"

definition iso8601Variants :: "rx list" where
  "iso8601Variants =
     [cat [Bol, Cap 1 rx_year, Lit CHR ''-'', Cap 2 rx_month, Lit CHR ''-'', Cap 3 rx_day,
           rx_sep, Cap 4 rx_hour, Lit CHR '':'', Cap 5 rx_minute, Lit CHR '':'', Cap 6 rx_second,
           rx_frac, Cap 8 rx_tz, Eol],
      cat [Bol, Cap 1 rx_year, Cap 2 rx_month, Cap 3 rx_day,
           rx_sep, Cap 4 rx_hour, Cap 5 rx_minute, Cap 6 rx_second,
           rx_frac, Cap 8 rx_tz, Eol],
      cat [Bol, Cap 1 rx_year, Lit CHR ''-'', Cap 2 rx_month, Lit CHR ''-'', Cap 3 rx_day,
           rx_sep, Cap 4 rx_hour, Cap 5 rx_minute, Cap 6 rx_second,
           rx_frac, Cap 8 rx_tz, Eol],
      cat [Bol, Cap 1 rx_year, Cap 2 rx_month, Cap 3 rx_day,
           rx_sep, Cap 4 rx_hour, Lit CHR '':'', Cap 5 rx_minute, Lit CHR '':'', Cap 6 rx_second,
           rx_frac, Cap 8 rx_tz, Eol],
      cat [Bol, Cap 1 rx_year, Lit CHR ''-'', Cap 2 rx_month, Lit CHR ''-'', Cap 3 rx_day, Eol],
      cat [Bol, Cap 1 rx_year, Cap 2 rx_month, Cap 3 rx_day, Eol]]"

section \<open>Values of the Go runtime and standard library\<close>

text \<open>
  A Go call returns or panics.  Indexing and slicing out of range panic; so does
  \<^verbatim>\<open>atoip\<close> when \<^verbatim>\<open>strconv.Atoi\<close> fails.
\<close>

datatype panic = IndexOutOfRange | SliceBoundsOutOfRange | AtoipFailed string

datatype 'a outcome = Return 'a | Panic panic

definition obind :: "'a outcome \<Rightarrow> ('a \<Rightarrow> 'b outcome) \<Rightarrow> 'b outcome" where
  "obind m f = (case m of Return x \<Rightarrow> f x | Panic p \<Rightarrow> Panic p)"

definition index :: "'a list \<Rightarrow> nat \<Rightarrow> 'a outcome" where
  \<comment> \<open>\<^verbatim>\<open>xs[i]\<close>\<close>
  "index xs i = (if i < length xs then Return (xs ! i) else Panic IndexOutOfRange)"

definition slice :: "'a list \<Rightarrow> nat \<Rightarrow> nat \<Rightarrow> 'a list outcome" where
  \<comment> \<open>\<^verbatim>\<open>xs[lo:hi]\<close>\<close>
  "slice xs lo hi =
     (if lo \<le> hi \<and> hi \<le> length xs then Return (take (hi - lo) (drop lo xs))
      else Panic SliceBoundsOutOfRange)"

definition is_digit :: "char \<Rightarrow> bool" where
  "is_digit x = ((48::int) \<le> of_char x \<and> (of_char x :: int) \<le> 57)"

definition digit_val :: "char \<Rightarrow> int" where
  "digit_val x = of_char x - 48"

definition dec :: "string \<Rightarrow> int" where
  "dec ds = foldl (\<lambda>a x. 10 * a + digit_val x) 0 ds"

text \<open>
  \<^verbatim>\<open>strconv.Atoi\<close>: an optional sign, then one or more decimal digits, and a
  value in the range of the 64-bit \<^verbatim>\<open>int\<close>; anything else is an error, here
  \<open>None\<close>.
\<close>

definition Atoi :: "string \<Rightarrow> int option" where
  "Atoi s =
     (let neg = (s \<noteq> [] \<and> hd s = CHR ''-'');
          ds = (if s \<noteq> [] \<and> (hd s = CHR ''-'' \<or> hd s = CHR ''+'') then tl s else s);
          v = (if neg then - dec ds else dec ds)
      in if ds = [] \<or> \<not> list_all is_digit ds then None
         else if - (2 ^ 63) \<le> v \<and> v < 2 ^ 63 then Some v
         else None)"

definition atoip :: "string \<Rightarrow> int outcome" where
  "atoip s = (case Atoi s of None \<Rightarrow> Panic (AtoipFailed s) | Some v \<Rightarrow> Return v)"

text \<open>
  \<^verbatim>\<open>time.Date\<close> builds a \<^verbatim>\<open>time.Time\<close> from its eight arguments and
  normalises fields that are out of range.  The constructor belongs to the standard
  library, not to the package: a time value is represented here by the arguments of the
  \<^verbatim>\<open>time.Date\<close> call that makes it, with no normalisation applied.  The zero
  value \<^verbatim>\<open>time.Time{}\<close> is January 1 of year 1, 00:00:00 UTC.
\<close>

datatype time_Location = time_UTC | time_FixedZone string int

datatype time_Time =
  time_Date (date_year: int) (date_month: int) (date_day: int) (date_hour: int)
            (date_min: int) (date_sec: int) (date_nsec: int) (date_loc: time_Location)

definition zero_Time :: time_Time where
  "zero_Time = time_Date 1 1 1 0 0 0 0 time_UTC"

text \<open>
  The two error values the package builds: the \<^verbatim>\<open>stacktrace.NewError\<close> call
  with its format and argument, and the \<^verbatim>\<open>time.ParseError\<close> struct.
\<close>

datatype error =
    stacktrace_NewError string string
  | ParseError (Layout: string) (Value: string) (LayoutElem: string) (ValueElem: string)
               (Message: string)








text \<open>
  \<^verbatim>\<open>fmt.Sprintf("%c%02d:%02d", signStr, tzHour, tzMin)\<close>: the byte, then each
  number in decimal, padded with zeros to two columns (a minus sign takes one).
\<close>

definition digit_char :: "nat \<Rightarrow> char" where
  "digit_char d = char_of (48 + d)"

fun dec_str :: "nat \<Rightarrow> string" where
  "dec_str n = (if n < 10 then [digit_char n] else dec_str (n div 10) @ [digit_char (n mod 10)])"

declare dec_str.simps [simp del]

definition fmt_02d :: "int \<Rightarrow> string" where
  "fmt_02d i =
     (if 0 \<le> i then replicate (2 - length (dec_str (nat i))) CHR ''0'' @ dec_str (nat i)
      else CHR ''-'' # replicate (1 - length (dec_str (nat (- i)))) CHR ''0'' @ dec_str (nat (- i)))"

definition zone_name :: "char \<Rightarrow> int \<Rightarrow> int \<Rightarrow> string" where
  "zone_name signStr tzHour tzMin = signStr # fmt_02d tzHour @ '':'' @ fmt_02d tzMin"

section \<open>\<^verbatim>\<open>ParseISO8601Timestamp\<close>\<close>

text \<open>
  The loop \<^verbatim>\<open>for len(fracSecStr) < 9 { fracSecStr = fracSecStr + "0" }\<close>.
\<close>

function pad_frac :: "string \<Rightarrow> string" where
  "pad_frac fracSecStr =
     (if length fracSecStr < 9 then pad_frac (fracSecStr @ ''0'') else fracSecStr)"
  by pat_completeness auto

termination
  by (relation "measure (\<lambda>s. 9 - length s)") auto

declare pad_frac.simps [simp del]

text \<open>
  The \<^verbatim>\<open>else\<close> branch of \<^verbatim>\<open>if tzStr == "Z"\<close>: the fixed zone of a
  signed offset.  The offset is small (two two-digit numbers), so the arithmetic of the
  64-bit \<^verbatim>\<open>int\<close> does not wrap.
\<close>

definition fixed_zone :: "string \<Rightarrow> time_Location outcome" where
  "fixed_zone tzStr =
     obind (index tzStr 0) (\<lambda>signStr.
     let sgn = (if signStr = CHR ''-'' then - 1 else 1) in
     obind (obind (slice tzStr 1 3) atoip) (\<lambda>tzHour.
     obind (index tzStr 3) (\<lambda>c3.
     obind (if c3 = CHR '':'' then obind (slice tzStr 4 6) atoip
            else obind (slice tzStr 3 5) atoip) (\<lambda>tzMin.
     Return (time_FixedZone (zone_name signStr tzHour tzMin)
                            (sgn * (tzHour * 3600 + tzMin * 60)))))))"

text \<open>
  The time of day: the first \<^verbatim>\<open>if len(parts) > 4\<close>, giving hour, minute,
  second and nanoseconds, all zero for a date-only match.
\<close>

definition time_of_day :: "string list \<Rightarrow> (int \<times> int \<times> int \<times> int) outcome" where
  "time_of_day parts =
     (if length parts > 4 then
        obind (obind (index parts 4) atoip) (\<lambda>hour.
        obind (obind (index parts 5) atoip) (\<lambda>minute.
        obind (obind (index parts 6) atoip) (\<lambda>second.
        obind (index parts 7) (\<lambda>fracSecStr.
        obind (if fracSecStr \<noteq> [] then atoip (pad_frac fracSecStr) else Return 0) (\<lambda>nanosecs.
        Return (hour, minute, second, nanosecs))))))
      else Return (0, 0, 0, 0))"

text \<open>The body of \<^verbatim>\<open>if re.MatchString(s)\<close>.\<close>

definition matched :: "rx \<Rightarrow> string \<Rightarrow> (time_Time \<times> error option) outcome" where
  "matched re s =
     (let parts = FindStringSubmatch re s in
      obind (obind (index parts 1) atoip) (\<lambda>year.
      obind (obind (index parts 2) atoip) (\<lambda>month.
      obind (obind (index parts 3) atoip) (\<lambda>day.
      obind (time_of_day parts) (\<lambda>(hour, minute, second, nanosecs).
      obind (if length parts > 4 then index parts 8 else Return ''Z'') (\<lambda>tzStr.
      obind (if tzStr = ''Z'' then Return time_UTC else fixed_zone tzStr) (\<lambda>loc.
      Return (time_Date year month day hour minute second nanosecs loc, None))))))))"

text \<open>
  The loop over the pattern table, followed by the statement after the loop (the
  error return), which is how the two copies of the function differ.
\<close>

fun try_variants ::
  "rx list \<Rightarrow> string \<Rightarrow> (time_Time \<times> error option) outcome \<Rightarrow> (time_Time \<times> error option) outcome"
where
  "try_variants [] s after = after"
| "try_variants (re # res) s after =
     (if MatchString re s then matched re s else try_variants res s after)"

definition ParseISO8601Timestamp :: "string \<Rightarrow> (time_Time \<times> error option) outcome" where
  "ParseISO8601Timestamp s =
     try_variants iso8601Variants s
       (Return (zero_Time, Some (stacktrace_NewError ''Invalid ISO 8601 timestamp: %#v'' s)))"

section \<open>The wrapper type \<^verbatim>\<open>Time\<close>\<close>

text \<open>
  The file that declares the wrapper has its own copy of the parser, which returns a
  \<^verbatim>\<open>time.ParseError\<close> where the other copy returns a stack-trace error.
\<close>

definition ParseISO8601Timestamp_pe :: "string \<Rightarrow> (time_Time \<times> error option) outcome" where
  "ParseISO8601Timestamp_pe s =
     try_variants iso8601Variants s
       (Return (zero_Time,
          Some (ParseError ''ISO 8601'' s '''' '''' '': timestamp is not in ISO 8601 format'')))"

record Time =
  Time :: time_Time

text \<open>
  The methods have a pointer receiver: they take the receiver's value and return it,
  updated, with the error.  Byte \<open>0x22\<close> is the double quote, \<open>0x27\<close> the single one.
\<close>

definition UnmarshalJSON :: "Time \<Rightarrow> string \<Rightarrow> (Time \<times> error option) outcome" where
  "UnmarshalJSON t data =
     (if data = ''null'' then Return (t, None)
      else
        let s = data in
        if length s < 2 \<or>
           (\<not> (s ! 0 = CHR 0x22 \<and> s ! (length s - 1) = CHR 0x22) \<and>
            \<not> (s ! 0 = CHR 0x27 \<and> s ! (length s - 1) = CHR 0x27))
        then Return (t, Some (ParseError ''ISO 8601'' s '''' ''''
                                '': timestamp must be a JSON string literal''))
        else
          obind (slice s 1 (length s - 1)) (\<lambda>s'.
          obind (ParseISO8601Timestamp_pe s') (\<lambda>(tm, err).
          Return (t\<lparr>Time := tm\<rparr>, err))))"

definition UnmarshalText :: "Time \<Rightarrow> string \<Rightarrow> (Time \<times> error option) outcome" where
  "UnmarshalText t data =
     obind (ParseISO8601Timestamp_pe data) (\<lambda>(tm, err). Return (t\<lparr>Time := tm\<rparr>, err))"

section \<open>The lexical grammar, stated on strings\<close>

text \<open>
  The grammar of the accepted timestamps, written without the regular expressions: a
  year of four digits, two-digit fields within their ranges, a date-time separator,
  an optional fraction (a point or comma and one to nine digits) and an offset.
\<close>

definition field2 :: "int \<Rightarrow> int \<Rightarrow> string \<Rightarrow> bool" where
  "field2 lo hi w = (length w = 2 \<and> list_all is_digit w \<and> lo \<le> dec w \<and> dec w \<le> hi)"

definition year_ok :: "string \<Rightarrow> bool" where
  "year_ok w = (length w = 4 \<and> list_all is_digit w)"

definition is_sep :: "char \<Rightarrow> bool" where
  "is_sep x = (x = CHR ''T'' \<or> x = CHR ''t'' \<or> x = CHR '' '')"

definition is_point :: "char \<Rightarrow> bool" where
  "is_point x = (x = CHR ''.'' \<or> x = CHR '','')"

definition frac_ok :: "string \<Rightarrow> bool" where
  \<comment> \<open>the fraction with its point, or nothing\<close>
  "frac_ok fr =
     (fr = [] \<or>
      (is_point (hd fr) \<and> 1 \<le> length (tl fr) \<and> length (tl fr) \<le> 9 \<and> list_all is_digit (tl fr)))"

definition tz_min_ok :: "string \<Rightarrow> bool" where
  \<comment> \<open>what may follow the sign and hour of an offset\<close>
  "tz_min_ok r =
     (r = [] \<or> r = '':'' \<or> field2 0 59 r \<or>
      (length r = 3 \<and> hd r = CHR '':'' \<and> field2 0 59 (tl r)))"

definition tz_ok :: "string \<Rightarrow> bool" where
  "tz_ok z =
     (z = ''Z'' \<or>
      (3 \<le> length z \<and> (z ! 0 = CHR ''-'' \<or> z ! 0 = CHR ''+'') \<and>
       (z ! 1 = CHR ''0'' \<or> z ! 1 = CHR ''1'') \<and> is_digit (z ! 2) \<and> tz_min_ok (drop 3 z)))"

definition dash :: "bool \<Rightarrow> string" where
  "dash hy = (if hy then ''-'' else [])"

definition colon :: "bool \<Rightarrow> string" where
  "colon co = (if co then '':'' else [])"

definition datestamp :: "bool \<Rightarrow> string \<Rightarrow> string \<Rightarrow> string \<Rightarrow> string" where
  "datestamp hy y m d = y @ dash hy @ m @ dash hy @ d"

definition daytime :: "bool \<Rightarrow> string \<Rightarrow> string \<Rightarrow> string \<Rightarrow> string" where
  "daytime co h mi se = h @ colon co @ mi @ colon co @ se"

definition date_ok :: "string \<Rightarrow> string \<Rightarrow> string \<Rightarrow> bool" where
  "date_ok y m d = (year_ok y \<and> field2 1 12 m \<and> field2 1 31 d)"

definition time_ok :: "string \<Rightarrow> string \<Rightarrow> string \<Rightarrow> bool" where
  "time_ok h mi se = (field2 0 23 h \<and> field2 0 59 mi \<and> field2 0 61 se)"

subsection \<open>The pattern table by its two switches\<close>

text \<open>
  The four date-time patterns differ in whether the date has hyphens and whether the
  time has colons; the two date-only patterns in the first alone.
\<close>

definition fixed :: "rx \<Rightarrow> nat \<Rightarrow> (string \<Rightarrow> bool) \<Rightarrow> (string \<Rightarrow> caps \<Rightarrow> caps) \<Rightarrow> bool" where
  "fixed r k P U =
     (\<forall>n s c. rmatch r n s c =
        (if k \<le> length s \<and> P (take k s) then [(n + k, drop k s, U (take k s) c)] else []))"

definition tz_rest :: rx where
  "tz_rest = cat [Opt (Lit CHR '':''), Opt (Seq (Cls [(CHR ''0'', CHR ''5'')]) rx_digit)]"

definition date_rx :: "bool \<Rightarrow> rx list" where
  "date_rx hy =
     Cap 1 rx_year # map Lit (dash hy) @ Cap 2 rx_month # map Lit (dash hy) @ [Cap 3 rx_day]"

definition time_rx :: "bool \<Rightarrow> rx list" where
  "time_rx co =
     rx_sep # Cap 4 rx_hour # map Lit (colon co) @ Cap 5 rx_minute # map Lit (colon co) @
     [Cap 6 rx_second]"

definition tail_rx :: "rx list" where
  "tail_rx = [rx_frac, Cap 8 rx_tz, Eol]"

definition variant_dt :: "bool \<Rightarrow> bool \<Rightarrow> rx" where
  "variant_dt hy co = cat (Bol # date_rx hy @ time_rx co @ tail_rx)"

definition variant_d :: "bool \<Rightarrow> rx" where
  "variant_d hy = cat (Bol # date_rx hy @ [Eol])"

definition tail_caps :: "string \<Rightarrow> string \<Rightarrow> caps \<Rightarrow> caps" where
  "tail_caps fr z c = (if fr = [] then c else c(7 \<mapsto> tl fr))(8 \<mapsto> z)"

definition dlen :: "bool \<Rightarrow> nat" where
  "dlen hy = (if hy then 10 else 8)"

definition tlen :: "bool \<Rightarrow> nat" where
  "tlen co = (if co then 8 else 6)"

definition timestamp ::
  "bool \<Rightarrow> bool \<Rightarrow> string \<Rightarrow> string \<Rightarrow> string \<Rightarrow> char \<Rightarrow> string \<Rightarrow> string \<Rightarrow> string \<Rightarrow> string \<Rightarrow> string \<Rightarrow> string"
where
  "timestamp hy co y m d sp h mi se fr z =
     datestamp hy y m d @ sp # daytime co h mi se @ fr @ z"

definition stamp_ok ::
  "string \<Rightarrow> string \<Rightarrow> string \<Rightarrow> char \<Rightarrow> string \<Rightarrow> string \<Rightarrow> string \<Rightarrow> string \<Rightarrow> string \<Rightarrow> bool"
where
  "stamp_ok y m d sp h mi se fr z =
     (date_ok y m d \<and> is_sep sp \<and> time_ok h mi se \<and> frac_ok fr \<and> tz_ok z)"

definition nanosec :: "string \<Rightarrow> int" where
  \<comment> \<open>the nanoseconds of a fraction: its digits, padded on the right with zeros to nine\<close>
  "nanosec fr =
     (if tl fr = [] then 0 else dec (tl fr @ replicate (9 - length (tl fr)) CHR ''0''))"

definition zone_of :: "string \<Rightarrow> time_Location outcome" where
  "zone_of z = (if z = ''Z'' then Return time_UTC else fixed_zone z)"

section \<open>Notions the claims are stated with\<close>

definition quoted :: "string \<Rightarrow> bool" where
  \<comment> \<open>a string literal in matching double or matching single quotes\<close>
  "quoted s =
     (2 \<le> length s \<and>
      ((hd s = CHR 0x22 \<and> last s = CHR 0x22) \<or> (hd s = CHR 0x27 \<and> last s = CHR 0x27)))"

text \<open>
  The date segment of an input is what stands before the first date-time separator;
  the time segment is what follows that separator, up to the fraction or the offset.
\<close>

definition date_segment :: "string \<Rightarrow> string" where
  "date_segment s = takeWhile (\<lambda>x. \<not> is_sep x) s"

definition time_segment :: "string \<Rightarrow> string" where
  "time_segment s =
     takeWhile (\<lambda>x. \<not> is_point x \<and> x \<noteq> CHR ''Z'' \<and> x \<noteq> CHR ''+'' \<and> x \<noteq> CHR ''-'')
       (drop 1 (dropWhile (\<lambda>x. \<not> is_sep x) s))"

fun positions :: "char \<Rightarrow> nat \<Rightarrow> string \<Rightarrow> nat list" where
  \<comment> \<open>the indices, counted from \<open>i\<close>, at which \<open>x\<close> stands\<close>
  "positions x i [] = []"
| "positions x i (a # w) = (if a = x then [i] else []) @ positions x (Suc i) w"

text \<open>
  A segment mixes separators when it has some, but not exactly the two of the fully
  separated layout: hyphens after the year and the month, colons after the hour and
  the minute.
\<close>

definition mixed_date :: "string \<Rightarrow> bool" where
  "mixed_date s =
     (positions CHR ''-'' 0 (date_segment s) \<noteq> [] \<and>
      positions CHR ''-'' 0 (date_segment s) \<noteq> [4, 7])"

definition mixed_time :: "string \<Rightarrow> bool" where
  "mixed_time s =
     (positions CHR '':'' 0 (time_segment s) \<noteq> [] \<and>
      positions CHR '':'' 0 (time_segment s) \<noteq> [2, 5])"

definition frac_digits :: "string \<Rightarrow> string" where
  \<comment> \<open>the digits that follow the first point or comma of the input\<close>
  "frac_digits s =
     (case dropWhile (\<lambda>x. \<not> is_point x) s of [] \<Rightarrow> [] | p # r \<Rightarrow> takeWhile is_digit r)"



text \<open>
  The label and the seconds of an offset that has its minute digits: sign, hour, a colon
  and the minute, which are the last two bytes; and sign times hour times 3600 plus
  minute times 60.
\<close>

definition zone_label :: "string \<Rightarrow> string" where
  "zone_label z = hd z # take 2 (tl z) @ '':'' @ drop (length z - 2) z"

definition offset_seconds :: "string \<Rightarrow> int" where
  "offset_seconds z =
     (if hd z = CHR ''-'' then - 1 else 1) *
     (dec (take 2 (tl z)) * 3600 + dec (drop (length z - 2) z) * 60)"

section \<open>Properties of the matcher\<close>

declare search_from.simps [simp del]

subsection \<open>Fixed-width pieces\<close>

lemma fixedD:
  "fixed r k P U \<Longrightarrow>
   rmatch r n s c =
     (if k \<le> length s \<and> P (take k s) then [(n + k, drop k s, U (take k s) c)] else [])"
  by (simp add: fixed_def)

lemma rmatch_Seq_fixed:
  assumes "fixed r k P U"
  shows "rmatch (Seq r t) n s c =
         (if k \<le> length s \<and> P (take k s) then rmatch t (n + k) (drop k s) (U (take k s) c)
          else [])"
  by (auto simp add: fixedD [OF assms])

lemma fixed_Lit: "fixed (Lit a) 1 (\<lambda>w. w = [a]) (\<lambda>w c. c)"
  unfolding fixed_def
proof (intro allI)
  fix n s c
  show "rmatch (Lit a) n s c =
        (if 1 \<le> length s \<and> take 1 s = [a] then [(n + 1, drop 1 s, c)] else [])"
    by (cases s) auto
qed

lemma fixed_Cls: "fixed (Cls rs) 1 (\<lambda>w. in_ranges rs (hd w)) (\<lambda>w c. c)"
  unfolding fixed_def
proof (intro allI)
  fix n s c
  show "rmatch (Cls rs) n s c =
        (if 1 \<le> length s \<and> in_ranges rs (hd (take 1 s)) then [(n + 1, drop 1 s, c)] else [])"
    by (cases s) auto
qed

lemma fixed_Emp: "fixed Emp 0 (\<lambda>w. True) (\<lambda>w c. c)"
  by (simp add: fixed_def)

lemma fixed_Cap:
  assumes "fixed r k P U"
  shows "fixed (Cap i r) k P (\<lambda>w c. (U w c)(i \<mapsto> w))"
  unfolding fixed_def
  by (auto simp add: fixedD [OF assms])

lemma fixed_Seq:
  assumes "fixed a ka Pa Ua" and "fixed b kb Pb Ub"
  shows "fixed (Seq a b) (ka + kb) (\<lambda>w. Pa (take ka w) \<and> Pb (drop ka w))
           (\<lambda>w c. Ub (drop ka w) (Ua (take ka w) c))"
  unfolding fixed_def
proof (intro allI)
  fix n and s :: string and c
  have "take ka (take (ka + kb) s) = take ka s"
    by (simp add: min_def)
  moreover have "drop ka (take (ka + kb) s) = take kb (drop ka s)"
    by (simp add: drop_take)
  ultimately show "rmatch (Seq a b) n s c =
        (if ka + kb \<le> length s \<and> Pa (take ka (take (ka + kb) s)) \<and> Pb (drop ka (take (ka + kb) s))
         then [(n + (ka + kb), drop (ka + kb) s,
                Ub (drop ka (take (ka + kb) s)) (Ua (take ka (take (ka + kb) s)) c))]
         else [])"
    unfolding rmatch_Seq_fixed [OF assms(1)] fixedD [OF assms(2)]
    by (auto simp add: add.commute add.assoc)
qed

lemma fixed_cong:
  assumes "fixed r k P U" and "k = k'" and "\<And>w. length w = k' \<Longrightarrow> P w = Q w"
    and "\<And>w c. length w = k' \<Longrightarrow> Q w \<Longrightarrow> U w c = V w c"
  shows "fixed r k' Q V"
  using assms by (simp add: fixed_def)

lemma chr_eq: "(a = b) = (of_char a = (of_char b :: int))"
  by simp

lemmas chr_simps =
  chr_eq [of _ "CHR ''0''", simplified] chr_eq [of _ "CHR ''1''", simplified]
  chr_eq [of _ "CHR ''2''", simplified] chr_eq [of _ "CHR ''3''", simplified]
  chr_eq [of _ "CHR ''6''", simplified]

lemma fixed2I:
  assumes "\<And>n c. rmatch r n [] c = []"
    and "\<And>n a c. rmatch r n [a] c = []"
    and "\<And>n a b t c. rmatch r n (a # b # t) c = (if P [a, b] then [(n + 2, t, c)] else [])"
  shows "fixed r 2 P (\<lambda>w c. c)"
  unfolding fixed_def
proof (intro allI)
  fix n s c
  show "rmatch r n s c = (if 2 \<le> length s \<and> P (take 2 s) then [(n + 2, drop 2 s, c)] else [])"
  proof (cases s)
    case Nil
    then show ?thesis by (simp add: assms(1))
  next
    case (Cons a s1)
    then show ?thesis
      by (cases s1) (simp_all add: assms(2) assms(3))
  qed
qed

lemmas field_unfold =
  field2_def in_ranges_def is_digit_def dec_def digit_val_def chr_simps rx_digit_def

lemma fixed_month: "fixed rx_month 2 (field2 1 12) (\<lambda>w c. c)"
  by (rule fixed2I) (auto simp add: rx_month_def field_unfold)

lemma fixed_day: "fixed rx_day 2 (field2 1 31) (\<lambda>w c. c)"
  by (rule fixed2I) (auto simp add: rx_day_def field_unfold)

lemma fixed_hour: "fixed rx_hour 2 (field2 0 23) (\<lambda>w c. c)"
  by (rule fixed2I) (auto simp add: rx_hour_def field_unfold)

lemma fixed_minute: "fixed rx_minute 2 (field2 0 59) (\<lambda>w c. c)"
  by (rule fixed2I) (auto simp add: rx_minute_def field_unfold)

lemma fixed_second: "fixed rx_second 2 (field2 0 61) (\<lambda>w c. c)"
  by (rule fixed2I) (auto simp add: rx_second_def field_unfold)

lemma fixed_digit: "fixed rx_digit 1 (\<lambda>w. is_digit (hd w)) (\<lambda>w c. c)"
  using fixed_Cls [of "[(CHR ''0'', CHR ''9'')]"]
  by (simp add: rx_digit_def in_ranges_def is_digit_def)

lemma fixed_sep: "fixed rx_sep 1 (\<lambda>w. is_sep (hd w)) (\<lambda>w c. c)"
  using fixed_Cls [of "[(CHR ''T'', CHR ''T''), (CHR ''t'', CHR ''t''), (CHR '' '', CHR '' '')]"]
  by (simp add: rx_sep_def in_ranges_def is_sep_def chr_eq [of _ "CHR ''T''"] chr_eq [of _ "CHR ''t''"]
      chr_eq [of _ "CHR '' ''"] eq_iff [symmetric] del: of_char_eq_iff)

lemma rx_year_unfold:
  "rx_year = Seq rx_digit (Seq rx_digit (Seq rx_digit (Seq rx_digit Emp)))"
  by (simp add: rx_year_def Rep_def numeral_eq_Suc)

lemma fixed_year: "fixed rx_year 4 year_ok (\<lambda>w c. c)"
proof -
  have "fixed (Seq rx_digit (Seq rx_digit (Seq rx_digit (Seq rx_digit Emp)))) (1 + (1 + (1 + (1 + 0))))
          (\<lambda>w. is_digit (hd (take 1 w)) \<and> is_digit (hd (take 1 (drop 1 w))) \<and>
               is_digit (hd (take 1 (drop 1 (drop 1 w)))) \<and>
               is_digit (hd (take 1 (drop 1 (drop 1 (drop 1 w))))) \<and> True) (\<lambda>w c. c)"
    by (intro fixed_Seq [where Ua = "\<lambda>w c. c" and Ub = "\<lambda>w c. c", simplified] fixed_digit fixed_Emp)
  then have "fixed rx_year (1 + (1 + (1 + (1 + 0))))
          (\<lambda>w. is_digit (hd (take 1 w)) \<and> is_digit (hd (take 1 (drop 1 w))) \<and>
               is_digit (hd (take 1 (drop 1 (drop 1 w)))) \<and>
               is_digit (hd (take 1 (drop 1 (drop 1 (drop 1 w))))) \<and> True) (\<lambda>w c. c)"
    by (simp only: rx_year_unfold)
  then show ?thesis
  proof (rule fixed_cong)
    show "1 + (1 + (1 + (1 + 0))) = (4::nat)" by simp
  next
    fix w :: string
    assume "length w = 4"
    then obtain a b c d where "w = [a, b, c, d]"
      by (auto simp add: length_Suc_conv numeral_eq_Suc)
    then show "(is_digit (hd (take 1 w)) \<and> is_digit (hd (take 1 (drop 1 w))) \<and>
               is_digit (hd (take 1 (drop 1 (drop 1 w)))) \<and>
               is_digit (hd (take 1 (drop 1 (drop 1 (drop 1 w))))) \<and> True) = year_ok w"
      by (simp add: year_ok_def)
  qed simp
qed

subsection \<open>Sequences\<close>

lemma rmatch_Seq_Eol:
  "rmatch (Seq r (Seq Eol Emp)) n s c = filter (\<lambda>e. fst (snd e) = []) (rmatch r n s c)"
proof -
  have *: "concat (map (\<lambda>(n', s', c'). rmatch (Seq Eol Emp) n' s' c') xs) =
        filter (\<lambda>e. fst (snd e) = []) xs" for xs
    by (induction xs) auto
  show ?thesis
    by (subst rmatch.simps(6)) (rule *)
qed

declare rmatch.simps(6) [simp del]

lemma rmatch_Seq_assoc:
  "rmatch (Seq (Seq a b) t) n s c = rmatch (Seq a (Seq b t)) n s c"
proof -
  have "concat (map (\<lambda>(n', s', c'). rmatch t n' s' c')
          (concat (map (\<lambda>(n', s', c'). rmatch b n' s' c') xs))) =
        concat (map (\<lambda>(n', s', c'). rmatch (Seq b t) n' s' c') xs)" for xs
    by (induction xs) (auto simp add: rmatch.simps(6))
  then show ?thesis
    by (simp add: rmatch.simps(6) [of "Seq a b"] rmatch.simps(6) [of a b]
        rmatch.simps(6) [of a "Seq b t"])
qed

lemma rmatch_Seq_Emp [simp]: "rmatch (Seq Emp t) n s c = rmatch t n s c"
  by (simp add: rmatch.simps(6))

lemma rmatch_Seq_Opt:
  "rmatch (Seq (Opt a) t) n s c = rmatch (Seq a t) n s c @ rmatch t n s c"
  by (simp add: rmatch.simps(6))

lemma rmatch_Seq_Bol:
  "rmatch (Seq Bol t) n s c = (if n = 0 then rmatch t 0 s c else [])"
  by (simp add: rmatch.simps(6))

lemma rmatch_Seq_cong:
  assumes "\<And>n s c. rmatch t n s c = rmatch t' n s c"
  shows "rmatch (Seq a t) n s c = rmatch (Seq a t') n s c"
proof -
  have "rmatch t = rmatch t'"
    by (intro ext) (rule assms)
  then show ?thesis
    by (simp only: rmatch.simps(6))
qed

lemma rmatch_cat_append:
  "rmatch (cat (xs @ ys)) n s c = rmatch (Seq (cat xs) (cat ys)) n s c"
proof (induction xs arbitrary: n s c)
  case Nil
  show ?case by simp
next
  case (Cons x xs)
  have "rmatch (cat ((x # xs) @ ys)) n s c = rmatch (Seq x (Seq (cat xs) (cat ys))) n s c"
    using rmatch_Seq_cong [of "cat (xs @ ys)" "Seq (cat xs) (cat ys)" x n s c] Cons.IH
    by simp
  then show ?case
    by (simp add: rmatch_Seq_assoc)
qed

lemma seq_fixed_gen:
  assumes "fixed r k P U" and "length w = k" and "P w"
  shows "rmatch (Seq r t) n (w @ x) c = rmatch t (n + k) x (U w c)"
  using assms(2,3) by (simp add: rmatch_Seq_fixed [OF assms(1)])

lemma seq_fixed_elim:
  assumes "fixed r k P U" and "e \<in> set (rmatch (Seq r t) n s c)"
  shows "\<exists>w x. s = w @ x \<and> length w = k \<and> P w \<and> e \<in> set (rmatch t (n + k) x (U w c))"
proof -
  from assms(2) have "k \<le> length s" and "P (take k s)"
    and "e \<in> set (rmatch t (n + k) (drop k s) (U (take k s) c))"
    by (auto simp add: rmatch_Seq_fixed [OF assms(1)] split: if_splits)
  then have "s = take k s @ drop k s \<and> length (take k s) = k \<and> P (take k s) \<and>
             e \<in> set (rmatch t (n + k) (drop k s) (U (take k s) c))"
    by simp
  then show ?thesis by blast
qed

lemma cat_fixed_gen:
  assumes "fixed (cat rs) k P U" and "length w = k" and "P w"
  shows "rmatch (cat (rs @ rest)) n (w @ x) c = rmatch (cat rest) (n + k) x (U w c)"
  by (simp add: rmatch_cat_append seq_fixed_gen [OF assms])

lemma cat_fixed_elim:
  assumes "fixed (cat rs) k P U" and "e \<in> set (rmatch (cat (rs @ rest)) n s c)"
  shows "\<exists>w x. s = w @ x \<and> length w = k \<and> P w \<and> e \<in> set (rmatch (cat rest) (n + k) x (U w c))"
  using assms(2) by (simp add: rmatch_cat_append seq_fixed_elim [OF assms(1)])

subsection \<open>The date and the time of day\<close>

lemma field2_length: "field2 lo hi w \<Longrightarrow> length w = 2"
  by (simp add: field2_def)

lemma year_ok_length: "year_ok w \<Longrightarrow> length w = 4"
  by (simp add: year_ok_def)

lemma cat_date_rx:
  "cat (date_rx True) =
     Seq (Cap 1 rx_year) (Seq (Lit CHR ''-'') (Seq (Cap 2 rx_month) (Seq (Lit CHR ''-'')
       (Seq (Cap 3 rx_day) Emp))))"
  "cat (date_rx False) = Seq (Cap 1 rx_year) (Seq (Cap 2 rx_month) (Seq (Cap 3 rx_day) Emp))"
  by (simp_all add: date_rx_def dash_def)

lemma fixed_date_True:
  "fixed (cat (date_rx True)) 10
     (\<lambda>w. \<exists>y m d. w = datestamp True y m d \<and> date_ok y m d)
     (\<lambda>w c. c(1 \<mapsto> take 4 w, 2 \<mapsto> take 2 (drop 5 w), 3 \<mapsto> take 2 (drop 8 w)))"
proof -
  have "fixed (cat (date_rx True)) (4 + (1 + (2 + (1 + (2 + 0)))))
     (\<lambda>w. year_ok (take 4 w) \<and> take 1 (drop 4 w) = ''-'' \<and> field2 1 12 (take 2 (drop 1 (drop 4 w))) \<and>
          take 1 (drop 2 (drop 1 (drop 4 w))) = ''-'' \<and>
          field2 1 31 (take 2 (drop 1 (drop 2 (drop 1 (drop 4 w))))) \<and> True)
     (\<lambda>w c. c(1 \<mapsto> take 4 w, 2 \<mapsto> take 2 (drop 1 (drop 4 w)),
              3 \<mapsto> take 2 (drop 1 (drop 2 (drop 1 (drop 4 w))))))"
    unfolding cat_date_rx
    by (intro fixed_Seq fixed_Cap fixed_year fixed_month fixed_day fixed_Lit fixed_Emp)
  then show ?thesis
  proof (rule fixed_cong)
    show "4 + (1 + (2 + (1 + (2 + 0)))) = (10::nat)"
      by simp
  next
    fix w :: string
    assume "length w = 10"
    then obtain a0 a1 a2 a3 a4 a5 a6 a7 a8 a9 where w: "w = [a0, a1, a2, a3, a4, a5, a6, a7, a8, a9]"
      by (auto simp add: length_Suc_conv numeral_eq_Suc)
    show "(year_ok (take 4 w) \<and> take 1 (drop 4 w) = ''-'' \<and> field2 1 12 (take 2 (drop 1 (drop 4 w))) \<and>
          take 1 (drop 2 (drop 1 (drop 4 w))) = ''-'' \<and>
          field2 1 31 (take 2 (drop 1 (drop 2 (drop 1 (drop 4 w))))) \<and> True) =
          (\<exists>y m d. w = datestamp True y m d \<and> date_ok y m d)" (is "?L = ?R")
    proof
      assume ?L
      then have "w = datestamp True [a0, a1, a2, a3] [a5, a6] [a8, a9] \<and>
                 date_ok [a0, a1, a2, a3] [a5, a6] [a8, a9]"
        by (simp add: w datestamp_def dash_def date_ok_def)
      then show ?R by blast
    next
      assume ?R
      then obtain y m d where *: "w = datestamp True y m d" "date_ok y m d"
        by blast
      then have "length y = 4" "length m = 2" "length d = 2"
        by (auto simp add: date_ok_def dest: field2_length year_ok_length)
      with * show ?L
        by (simp add: datestamp_def dash_def date_ok_def)
    qed
  next
    fix w :: string and c :: caps
    show "c(1 \<mapsto> take 4 w, 2 \<mapsto> take 2 (drop 1 (drop 4 w)),
              3 \<mapsto> take 2 (drop 1 (drop 2 (drop 1 (drop 4 w))))) =
          c(1 \<mapsto> take 4 w, 2 \<mapsto> take 2 (drop 5 w), 3 \<mapsto> take 2 (drop 8 w))"
      by simp
  qed
qed

lemma fixed_date_False:
  "fixed (cat (date_rx False)) 8
     (\<lambda>w. \<exists>y m d. w = datestamp False y m d \<and> date_ok y m d)
     (\<lambda>w c. c(1 \<mapsto> take 4 w, 2 \<mapsto> take 2 (drop 4 w), 3 \<mapsto> take 2 (drop 6 w)))"
proof -
  have "fixed (cat (date_rx False)) (4 + (2 + (2 + 0)))
     (\<lambda>w. year_ok (take 4 w) \<and> field2 1 12 (take 2 (drop 4 w)) \<and>
          field2 1 31 (take 2 (drop 2 (drop 4 w))) \<and> True)
     (\<lambda>w c. c(1 \<mapsto> take 4 w, 2 \<mapsto> take 2 (drop 4 w), 3 \<mapsto> take 2 (drop 2 (drop 4 w))))"
    unfolding cat_date_rx
    by (intro fixed_Seq fixed_Cap fixed_year fixed_month fixed_day fixed_Lit fixed_Emp)
  then show ?thesis
  proof (rule fixed_cong)
    show "4 + (2 + (2 + 0)) = (8::nat)"
      by simp
  next
    fix w :: string
    assume "length w = 8"
    then obtain a0 a1 a2 a3 a4 a5 a6 a7 where w: "w = [a0, a1, a2, a3, a4, a5, a6, a7]"
      by (auto simp add: length_Suc_conv numeral_eq_Suc)
    show "(year_ok (take 4 w) \<and> field2 1 12 (take 2 (drop 4 w)) \<and>
          field2 1 31 (take 2 (drop 2 (drop 4 w))) \<and> True) =
          (\<exists>y m d. w = datestamp False y m d \<and> date_ok y m d)" (is "?L = ?R")
    proof
      assume ?L
      then have "w = datestamp False [a0, a1, a2, a3] [a4, a5] [a6, a7] \<and>
                 date_ok [a0, a1, a2, a3] [a4, a5] [a6, a7]"
        by (simp add: w datestamp_def dash_def date_ok_def)
      then show ?R by blast
    next
      assume ?R
      then obtain y m d where *: "w = datestamp False y m d" "date_ok y m d"
        by blast
      then have "length y = 4" "length m = 2" "length d = 2"
        by (auto simp add: date_ok_def dest: field2_length year_ok_length)
      with * show ?L
        by (simp add: datestamp_def dash_def date_ok_def)
    qed
  next
    fix w :: string and c :: caps
    show "c(1 \<mapsto> take 4 w, 2 \<mapsto> take 2 (drop 4 w), 3 \<mapsto> take 2 (drop 2 (drop 4 w))) =
          c(1 \<mapsto> take 4 w, 2 \<mapsto> take 2 (drop 4 w), 3 \<mapsto> take 2 (drop 6 w))"
      by simp
  qed
qed

lemma cat_time_rx:
  "cat (time_rx True) =
     Seq rx_sep (Seq (Cap 4 rx_hour) (Seq (Lit CHR '':'') (Seq (Cap 5 rx_minute) (Seq (Lit CHR '':'')
       (Seq (Cap 6 rx_second) Emp)))))"
  "cat (time_rx False) =
     Seq rx_sep (Seq (Cap 4 rx_hour) (Seq (Cap 5 rx_minute) (Seq (Cap 6 rx_second) Emp)))"
  by (simp_all add: time_rx_def colon_def)

lemma fixed_time_True:
  "fixed (cat (time_rx True)) 9
     (\<lambda>w. \<exists>sp h mi se. w = sp # daytime True h mi se \<and> is_sep sp \<and> time_ok h mi se)
     (\<lambda>w c. c(4 \<mapsto> take 2 (drop 1 w), 5 \<mapsto> take 2 (drop 4 w), 6 \<mapsto> take 2 (drop 7 w)))"
proof -
  have "fixed (cat (time_rx True)) (1 + (2 + (1 + (2 + (1 + (2 + 0))))))
     (\<lambda>w. is_sep (hd (take 1 w)) \<and> field2 0 23 (take 2 (drop 1 w)) \<and>
          take 1 (drop 2 (drop 1 w)) = '':'' \<and>
          field2 0 59 (take 2 (drop 1 (drop 2 (drop 1 w)))) \<and>
          take 1 (drop 2 (drop 1 (drop 2 (drop 1 w)))) = '':'' \<and>
          field2 0 61 (take 2 (drop 1 (drop 2 (drop 1 (drop 2 (drop 1 w)))))) \<and> True)
     (\<lambda>w c. c(4 \<mapsto> take 2 (drop 1 w), 5 \<mapsto> take 2 (drop 1 (drop 2 (drop 1 w))),
              6 \<mapsto> take 2 (drop 1 (drop 2 (drop 1 (drop 2 (drop 1 w)))))))"
    unfolding cat_time_rx
    by (intro fixed_Seq fixed_Cap fixed_sep fixed_hour fixed_minute fixed_second fixed_Lit fixed_Emp)
  then show ?thesis
  proof (rule fixed_cong)
    show "1 + (2 + (1 + (2 + (1 + (2 + 0))))) = (9::nat)"
      by simp
  next
    fix w :: string
    assume "length w = 9"
    then obtain a0 a1 a2 a3 a4 a5 a6 a7 a8 where w: "w = [a0, a1, a2, a3, a4, a5, a6, a7, a8]"
      by (auto simp add: length_Suc_conv numeral_eq_Suc)
    show "(is_sep (hd (take 1 w)) \<and> field2 0 23 (take 2 (drop 1 w)) \<and>
          take 1 (drop 2 (drop 1 w)) = '':'' \<and>
          field2 0 59 (take 2 (drop 1 (drop 2 (drop 1 w)))) \<and>
          take 1 (drop 2 (drop 1 (drop 2 (drop 1 w)))) = '':'' \<and>
          field2 0 61 (take 2 (drop 1 (drop 2 (drop 1 (drop 2 (drop 1 w)))))) \<and> True) =
          (\<exists>sp h mi se. w = sp # daytime True h mi se \<and> is_sep sp \<and> time_ok h mi se)"
      (is "?L = ?R")
    proof
      assume ?L
      then have "w = a0 # daytime True [a1, a2] [a4, a5] [a7, a8] \<and> is_sep a0 \<and>
                 time_ok [a1, a2] [a4, a5] [a7, a8]"
        by (simp add: w daytime_def colon_def time_ok_def)
      then show ?R by blast
    next
      assume ?R
      then obtain sp h mi se where *: "w = sp # daytime True h mi se" "is_sep sp" "time_ok h mi se"
        by blast
      then have "length h = 2" "length mi = 2" "length se = 2"
        by (auto simp add: time_ok_def dest: field2_length)
      with * show ?L
        by (simp add: daytime_def colon_def time_ok_def)
    qed
  next
    fix w :: string and c :: caps
    show "c(4 \<mapsto> take 2 (drop 1 w), 5 \<mapsto> take 2 (drop 1 (drop 2 (drop 1 w))),
              6 \<mapsto> take 2 (drop 1 (drop 2 (drop 1 (drop 2 (drop 1 w)))))) =
          c(4 \<mapsto> take 2 (drop 1 w), 5 \<mapsto> take 2 (drop 4 w), 6 \<mapsto> take 2 (drop 7 w))"
      by simp
  qed
qed

lemma fixed_time_False:
  "fixed (cat (time_rx False)) 7
     (\<lambda>w. \<exists>sp h mi se. w = sp # daytime False h mi se \<and> is_sep sp \<and> time_ok h mi se)
     (\<lambda>w c. c(4 \<mapsto> take 2 (drop 1 w), 5 \<mapsto> take 2 (drop 3 w), 6 \<mapsto> take 2 (drop 5 w)))"
proof -
  have "fixed (cat (time_rx False)) (1 + (2 + (2 + (2 + 0))))
     (\<lambda>w. is_sep (hd (take 1 w)) \<and> field2 0 23 (take 2 (drop 1 w)) \<and>
          field2 0 59 (take 2 (drop 2 (drop 1 w))) \<and>
          field2 0 61 (take 2 (drop 2 (drop 2 (drop 1 w)))) \<and> True)
     (\<lambda>w c. c(4 \<mapsto> take 2 (drop 1 w), 5 \<mapsto> take 2 (drop 2 (drop 1 w)),
              6 \<mapsto> take 2 (drop 2 (drop 2 (drop 1 w)))))"
    unfolding cat_time_rx
    by (intro fixed_Seq fixed_Cap fixed_sep fixed_hour fixed_minute fixed_second fixed_Lit fixed_Emp)
  then show ?thesis
  proof (rule fixed_cong)
    show "1 + (2 + (2 + (2 + 0))) = (7::nat)"
      by simp
  next
    fix w :: string
    assume "length w = 7"
    then obtain a0 a1 a2 a3 a4 a5 a6 where w: "w = [a0, a1, a2, a3, a4, a5, a6]"
      by (auto simp add: length_Suc_conv numeral_eq_Suc)
    show "(is_sep (hd (take 1 w)) \<and> field2 0 23 (take 2 (drop 1 w)) \<and>
          field2 0 59 (take 2 (drop 2 (drop 1 w))) \<and>
          field2 0 61 (take 2 (drop 2 (drop 2 (drop 1 w)))) \<and> True) =
          (\<exists>sp h mi se. w = sp # daytime False h mi se \<and> is_sep sp \<and> time_ok h mi se)"
      (is "?L = ?R")
    proof
      assume ?L
      then have "w = a0 # daytime False [a1, a2] [a3, a4] [a5, a6] \<and> is_sep a0 \<and>
                 time_ok [a1, a2] [a3, a4] [a5, a6]"
        by (simp add: w daytime_def colon_def time_ok_def)
      then show ?R by blast
    next
      assume ?R
      then obtain sp h mi se where *: "w = sp # daytime False h mi se" "is_sep sp" "time_ok h mi se"
        by blast
      then have "length h = 2" "length mi = 2" "length se = 2"
        by (auto simp add: time_ok_def dest: field2_length)
      with * show ?L
        by (simp add: daytime_def colon_def time_ok_def)
    qed
  next
    fix w :: string and c :: caps
    show "c(4 \<mapsto> take 2 (drop 1 w), 5 \<mapsto> take 2 (drop 2 (drop 1 w)),
              6 \<mapsto> take 2 (drop 2 (drop 2 (drop 1 w)))) =
          c(4 \<mapsto> take 2 (drop 1 w), 5 \<mapsto> take 2 (drop 3 w), 6 \<mapsto> take 2 (drop 5 w))"
      by simp
  qed
qed

subsection \<open>Generator forms of the date and the time\<close>

lemma date_gen:
  assumes "date_ok y m d"
  shows "rmatch (cat (date_rx hy @ rest)) n (datestamp hy y m d @ x) c =
         rmatch (cat rest) (n + dlen hy) x (c(1 \<mapsto> y, 2 \<mapsto> m, 3 \<mapsto> d))"
proof -
  from assms have len: "length y = 4" "length m = 2" "length d = 2"
    by (auto simp add: date_ok_def dest: field2_length year_ok_length)
  show ?thesis
  proof (cases hy)
    case True
    have "rmatch (cat (date_rx True @ rest)) n (datestamp True y m d @ x) c =
          rmatch (cat rest) (n + 10) x
            (c(1 \<mapsto> take 4 (datestamp True y m d), 2 \<mapsto> take 2 (drop 5 (datestamp True y m d)),
               3 \<mapsto> take 2 (drop 8 (datestamp True y m d))))"
      using assms len by (intro cat_fixed_gen [OF fixed_date_True]) (auto simp add: datestamp_def dash_def)
    then show ?thesis
      using True len by (simp add: datestamp_def dash_def dlen_def)
  next
    case False
    have "rmatch (cat (date_rx False @ rest)) n (datestamp False y m d @ x) c =
          rmatch (cat rest) (n + 8) x
            (c(1 \<mapsto> take 4 (datestamp False y m d), 2 \<mapsto> take 2 (drop 4 (datestamp False y m d)),
               3 \<mapsto> take 2 (drop 6 (datestamp False y m d))))"
      using assms len by (intro cat_fixed_gen [OF fixed_date_False]) (auto simp add: datestamp_def dash_def)
    then show ?thesis
      using False len by (simp add: datestamp_def dash_def dlen_def)
  qed
qed

lemma date_elim:
  assumes "e \<in> set (rmatch (cat (date_rx hy @ rest)) n s c)"
  shows "\<exists>y m d x. s = datestamp hy y m d @ x \<and> date_ok y m d \<and>
           e \<in> set (rmatch (cat rest) (n + dlen hy) x (c(1 \<mapsto> y, 2 \<mapsto> m, 3 \<mapsto> d)))"
proof (cases hy)
  case True
  with assms have "e \<in> set (rmatch (cat (date_rx True @ rest)) n s c)"
    by simp
  from cat_fixed_elim [OF fixed_date_True this]
  obtain y m d x where *: "s = datestamp True y m d @ x" "date_ok y m d"
    and e: "e \<in> set (rmatch (cat rest) (n + 10) x
            (c(1 \<mapsto> take 4 (datestamp True y m d), 2 \<mapsto> take 2 (drop 5 (datestamp True y m d)),
               3 \<mapsto> take 2 (drop 8 (datestamp True y m d)))))"
    by blast
  from * have len: "length y = 4" "length m = 2" "length d = 2"
    by (auto simp add: date_ok_def dest: field2_length year_ok_length)
  from e len have "e \<in> set (rmatch (cat rest) (n + dlen hy) x (c(1 \<mapsto> y, 2 \<mapsto> m, 3 \<mapsto> d)))"
    using True by (simp add: datestamp_def dash_def dlen_def)
  with * True show ?thesis by auto
next
  case False
  with assms have "e \<in> set (rmatch (cat (date_rx False @ rest)) n s c)"
    by simp
  from cat_fixed_elim [OF fixed_date_False this]
  obtain y m d x where *: "s = datestamp False y m d @ x" "date_ok y m d"
    and e: "e \<in> set (rmatch (cat rest) (n + 8) x
            (c(1 \<mapsto> take 4 (datestamp False y m d), 2 \<mapsto> take 2 (drop 4 (datestamp False y m d)),
               3 \<mapsto> take 2 (drop 6 (datestamp False y m d)))))"
    by blast
  from * have len: "length y = 4" "length m = 2" "length d = 2"
    by (auto simp add: date_ok_def dest: field2_length year_ok_length)
  from e len have "e \<in> set (rmatch (cat rest) (n + dlen hy) x (c(1 \<mapsto> y, 2 \<mapsto> m, 3 \<mapsto> d)))"
    using False by (simp add: datestamp_def dash_def dlen_def)
  with * False show ?thesis by auto
qed

lemma time_gen:
  assumes "is_sep sp" and "time_ok h mi se"
  shows "rmatch (cat (time_rx co @ rest)) n (sp # daytime co h mi se @ x) c =
         rmatch (cat rest) (n + Suc (tlen co)) x (c(4 \<mapsto> h, 5 \<mapsto> mi, 6 \<mapsto> se))"
proof -
  from assms have len: "length h = 2" "length mi = 2" "length se = 2"
    by (auto simp add: time_ok_def dest: field2_length)
  show ?thesis
  proof (cases co)
    case True
    have "rmatch (cat (time_rx True @ rest)) n ((sp # daytime True h mi se) @ x) c =
          rmatch (cat rest) (n + 9) x
            (c(4 \<mapsto> take 2 (drop 1 (sp # daytime True h mi se)),
               5 \<mapsto> take 2 (drop 4 (sp # daytime True h mi se)),
               6 \<mapsto> take 2 (drop 7 (sp # daytime True h mi se))))"
      using assms len by (intro cat_fixed_gen [OF fixed_time_True]) (auto simp add: daytime_def colon_def)
    then show ?thesis
      using True len by (simp add: daytime_def colon_def tlen_def)
  next
    case False
    have "rmatch (cat (time_rx False @ rest)) n ((sp # daytime False h mi se) @ x) c =
          rmatch (cat rest) (n + 7) x
            (c(4 \<mapsto> take 2 (drop 1 (sp # daytime False h mi se)),
               5 \<mapsto> take 2 (drop 3 (sp # daytime False h mi se)),
               6 \<mapsto> take 2 (drop 5 (sp # daytime False h mi se))))"
      using assms len by (intro cat_fixed_gen [OF fixed_time_False]) (auto simp add: daytime_def colon_def)
    then show ?thesis
      using False len by (simp add: daytime_def colon_def tlen_def)
  qed
qed

lemma time_elim:
  assumes "e \<in> set (rmatch (cat (time_rx co @ rest)) n s c)"
  shows "\<exists>sp h mi se x. s = sp # daytime co h mi se @ x \<and> is_sep sp \<and> time_ok h mi se \<and>
           e \<in> set (rmatch (cat rest) (n + Suc (tlen co)) x (c(4 \<mapsto> h, 5 \<mapsto> mi, 6 \<mapsto> se)))"
proof (cases co)
  case True
  with assms have "e \<in> set (rmatch (cat (time_rx True @ rest)) n s c)"
    by simp
  from cat_fixed_elim [OF fixed_time_True this]
  obtain sp h mi se x where *: "s = (sp # daytime True h mi se) @ x" "is_sep sp" "time_ok h mi se"
    and e: "e \<in> set (rmatch (cat rest) (n + 9) x
            (c(4 \<mapsto> take 2 (drop 1 (sp # daytime True h mi se)),
               5 \<mapsto> take 2 (drop 4 (sp # daytime True h mi se)),
               6 \<mapsto> take 2 (drop 7 (sp # daytime True h mi se)))))"
    by blast
  from * have len: "length h = 2" "length mi = 2" "length se = 2"
    by (auto simp add: time_ok_def dest: field2_length)
  from e len have "e \<in> set (rmatch (cat rest) (n + Suc (tlen co)) x (c(4 \<mapsto> h, 5 \<mapsto> mi, 6 \<mapsto> se)))"
    using True by (simp add: daytime_def colon_def tlen_def)
  with * True show ?thesis by auto
next
  case False
  with assms have "e \<in> set (rmatch (cat (time_rx False @ rest)) n s c)"
    by simp
  from cat_fixed_elim [OF fixed_time_False this]
  obtain sp h mi se x where *: "s = (sp # daytime False h mi se) @ x" "is_sep sp" "time_ok h mi se"
    and e: "e \<in> set (rmatch (cat rest) (n + 7) x
            (c(4 \<mapsto> take 2 (drop 1 (sp # daytime False h mi se)),
               5 \<mapsto> take 2 (drop 3 (sp # daytime False h mi se)),
               6 \<mapsto> take 2 (drop 5 (sp # daytime False h mi se)))))"
    by blast
  from * have len: "length h = 2" "length mi = 2" "length se = 2"
    by (auto simp add: time_ok_def dest: field2_length)
  from e len have "e \<in> set (rmatch (cat rest) (n + Suc (tlen co)) x (c(4 \<mapsto> h, 5 \<mapsto> mi, 6 \<mapsto> se)))"
    using False by (simp add: daytime_def colon_def tlen_def)
  with * False show ?thesis by auto
qed

subsection \<open>The offset\<close>

lemma list_upto4:
  fixes s :: "'a list"
  shows "s = [] \<or> (\<exists>a. s = [a]) \<or> (\<exists>a b. s = [a, b]) \<or> (\<exists>a b c. s = [a, b, c]) \<or>
         (\<exists>a b c d t. s = a # b # c # d # t)"
proof -
  have "length s = 0 \<or> length s = 1 \<or> length s = 2 \<or> length s = 3 \<or> 4 \<le> length s"
    by arith
  then show ?thesis
    by (elim disjE) (auto simp add: length_Suc_conv numeral_eq_Suc Suc_le_length_iff)
qed

lemma tz_rest_end:
  "filter (\<lambda>e. fst (snd e) = []) (rmatch tz_rest n r c) =
     (if tz_min_ok r then [(n + length r, [], c)] else [])"
  using list_upto4 [of r]
  by (elim disjE exE)
     (simp_all add: tz_rest_def tz_min_ok_def field2_def in_ranges_def is_digit_def dec_def
        digit_val_def rx_digit_def rmatch.simps(6))

lemma tz_prefix:
  "fixed (cat [Cls [(CHR ''-'', CHR ''-''), (CHR ''+'', CHR ''+'')],
               Cls [(CHR ''0'', CHR ''0''), (CHR ''1'', CHR ''1'')], rx_digit]) 3
     (\<lambda>w. (w ! 0 = CHR ''-'' \<or> w ! 0 = CHR ''+'') \<and> (w ! 1 = CHR ''0'' \<or> w ! 1 = CHR ''1'') \<and>
          is_digit (w ! 2)) (\<lambda>w c. c)"
proof -
  have "fixed (Seq (Cls [(CHR ''-'', CHR ''-''), (CHR ''+'', CHR ''+'')])
         (Seq (Cls [(CHR ''0'', CHR ''0''), (CHR ''1'', CHR ''1'')]) (Seq rx_digit Emp)))
         (1 + (1 + (1 + 0)))
     (\<lambda>w. in_ranges [(CHR ''-'', CHR ''-''), (CHR ''+'', CHR ''+'')] (hd (take 1 w)) \<and>
          in_ranges [(CHR ''0'', CHR ''0''), (CHR ''1'', CHR ''1'')] (hd (take 1 (drop 1 w))) \<and>
          is_digit (hd (take 1 (drop 1 (drop 1 w)))) \<and> True) (\<lambda>w c. c)"
    by (intro fixed_Seq [where Ua = "\<lambda>w c. c" and Ub = "\<lambda>w c. c", simplified] fixed_digit
        fixed_Emp fixed_Cls)
  then have "fixed (cat [Cls [(CHR ''-'', CHR ''-''), (CHR ''+'', CHR ''+'')],
               Cls [(CHR ''0'', CHR ''0''), (CHR ''1'', CHR ''1'')], rx_digit])
         (1 + (1 + (1 + 0)))
     (\<lambda>w. in_ranges [(CHR ''-'', CHR ''-''), (CHR ''+'', CHR ''+'')] (hd (take 1 w)) \<and>
          in_ranges [(CHR ''0'', CHR ''0''), (CHR ''1'', CHR ''1'')] (hd (take 1 (drop 1 w))) \<and>
          is_digit (hd (take 1 (drop 1 (drop 1 w)))) \<and> True) (\<lambda>w c. c)"
    by (simp only: cat.simps)
  then show ?thesis
  proof (rule fixed_cong)
    show "1 + (1 + (1 + 0)) = (3::nat)" by simp
  next
    fix w :: string
    assume "length w = 3"
    then obtain a b c where "w = [a, b, c]"
      by (auto simp add: length_Suc_conv numeral_eq_Suc)
    then show "(in_ranges [(CHR ''-'', CHR ''-''), (CHR ''+'', CHR ''+'')] (hd (take 1 w)) \<and>
          in_ranges [(CHR ''0'', CHR ''0''), (CHR ''1'', CHR ''1'')] (hd (take 1 (drop 1 w))) \<and>
          is_digit (hd (take 1 (drop 1 (drop 1 w)))) \<and> True) =
          ((w ! 0 = CHR ''-'' \<or> w ! 0 = CHR ''+'') \<and> (w ! 1 = CHR ''0'' \<or> w ! 1 = CHR ''1'') \<and>
          is_digit (w ! 2))"
      by (auto simp add: in_ranges_def chr_eq [of a] chr_eq [of b])
  qed simp
qed

lemma rx_tz_unfold:
  "rx_tz = Alt (Lit CHR ''Z'')
     (cat ([Cls [(CHR ''-'', CHR ''-''), (CHR ''+'', CHR ''+'')],
            Cls [(CHR ''0'', CHR ''0''), (CHR ''1'', CHR ''1'')], rx_digit] @
           [Opt (Lit CHR '':''), Opt (Seq (Cls [(CHR ''0'', CHR ''5'')]) rx_digit)]))"
  by (simp add: rx_tz_def)

lemma rmatch_rx_tz:
  "rmatch rx_tz n s c =
     rmatch (Lit CHR ''Z'') n s c @
     (if 3 \<le> length s \<and> (s ! 0 = CHR ''-'' \<or> s ! 0 = CHR ''+'') \<and>
         (s ! 1 = CHR ''0'' \<or> s ! 1 = CHR ''1'') \<and> is_digit (s ! 2)
      then rmatch tz_rest (n + 3) (drop 3 s) c else [])"
  unfolding rx_tz_unfold rmatch.simps(7) rmatch_cat_append rmatch_Seq_fixed [OF tz_prefix]
  by (auto simp add: tz_rest_def)

lemma tz_eol:
  "rmatch (Seq (Cap 8 rx_tz) (Seq Eol Emp)) n s c =
     (if tz_ok s then [(n + length s, [], c(8 \<mapsto> s))] else [])"
proof -
  let ?ends = "\<lambda>e :: nat \<times> string \<times> caps. fst (snd e) = []"
  let ?upd = "\<lambda>(n', s', c'). (n', s' :: string, c'(8 \<mapsto> take (n' - n) s))"
  have 1: "rmatch (Seq (Cap 8 rx_tz) (Seq Eol Emp)) n s c =
           map ?upd (filter ?ends (rmatch rx_tz n s c))"
    by (simp add: rmatch_Seq_Eol filter_map comp_def case_prod_unfold)
  have 2: "filter ?ends (rmatch (Lit CHR ''Z'') n s c) = (if s = ''Z'' then [(n + 1, [], c)] else [])"
    by (cases s) auto
  have 3: "filter ?ends (rmatch rx_tz n s c) = (if tz_ok s then [(n + length s, [], c)] else [])"
  proof (cases "s = ''Z''")
    case True
    then show ?thesis
      by (simp add: rmatch_rx_tz tz_ok_def)
  next
    case False
    then show ?thesis
      by (auto simp add: rmatch_rx_tz 2 tz_rest_end tz_ok_def add.assoc simp del: rmatch.simps)
  qed
  show ?thesis
    by (simp add: 1 3)
qed

lemma tz_ok_hd:
  assumes "tz_ok z"
  shows "z \<noteq> [] \<and> \<not> is_digit (hd z) \<and> \<not> is_point (hd z)"
  using assms
  by (cases z) (auto simp add: tz_ok_def is_digit_def is_point_def)

subsection \<open>The fraction and the tail\<close>

lemma opts_digit:
  assumes K: "\<And>n s c. s \<noteq> [] \<Longrightarrow> is_digit (hd s) \<Longrightarrow> Kf n s c = []"
  shows "concat (map (\<lambda>(n', s', c'). Kf n' s' c') (rmatch (opts rx_digit m) n s c)) =
         (if length (takeWhile is_digit s) \<le> m
          then Kf (n + length (takeWhile is_digit s)) (dropWhile is_digit s) c else [])"
proof (induction m arbitrary: n s)
  case 0
  show ?case
  proof (cases "s \<noteq> [] \<and> is_digit (hd s)")
    case True
    then show ?thesis
      by (cases s) (simp_all add: K)
  next
    case False
    then show ?thesis
      by (cases s) auto
  qed
next
  case (Suc m)
  show ?case
  proof (cases s)
    case Nil
    then show ?thesis
      by (simp add: rmatch_Seq_fixed [OF fixed_digit])
  next
    case (Cons a t)
    show ?thesis
    proof (cases "is_digit a")
      case True
      with Cons show ?thesis
        by (simp add: rmatch_Seq_fixed [OF fixed_digit] Suc.IH K)
    next
      case False
      with Cons show ?thesis
        by (simp add: rmatch_Seq_fixed [OF fixed_digit])
    qed
  qed
qed

lemma length_takeWhile_dropWhile:
  "length (takeWhile P xs) + length (dropWhile P xs) = length xs"
  by (induction xs) auto

lemma cap7_digits:
  "rmatch (Seq (Cap 7 (Rep rx_digit 1 9)) (Seq (Cap 8 rx_tz) (Seq Eol Emp))) n s c =
     (if 1 \<le> length (takeWhile is_digit s) \<and> length (takeWhile is_digit s) \<le> 9 \<and>
         tz_ok (dropWhile is_digit s)
      then [(n + length s, [], c(7 \<mapsto> takeWhile is_digit s, 8 \<mapsto> dropWhile is_digit s))]
      else [])"
proof -
  let ?K = "\<lambda>n' s' c'. rmatch (Seq (Cap 8 rx_tz) (Seq Eol Emp)) n' s' (c'(7 \<mapsto> take (n' - n) s))"
  have K: "?K n' s' c' = []" if "s' \<noteq> []" "is_digit (hd s')" for n' s' c'
    using that tz_ok_hd [of s'] by (auto simp add: tz_eol)
  have rep: "Rep rx_digit 1 9 = Seq rx_digit (opts rx_digit 8)"
    by (simp add: Rep_def)
  have "rmatch (Seq (Cap 7 (Rep rx_digit 1 9)) (Seq (Cap 8 rx_tz) (Seq Eol Emp))) n s c =
        concat (map (\<lambda>(n', s', c'). ?K n' s' c') (rmatch (Seq rx_digit (opts rx_digit 8)) n s c))"
    unfolding rep
    by (subst rmatch.simps(6), subst rmatch.simps(9)) (simp add: map_concat comp_def case_prod_unfold)
  also have "\<dots> =
     (if 1 \<le> length (takeWhile is_digit s) \<and> length (takeWhile is_digit s) \<le> 9 \<and>
         tz_ok (dropWhile is_digit s)
      then [(n + length s, [], c(7 \<mapsto> takeWhile is_digit s, 8 \<mapsto> dropWhile is_digit s))]
      else [])"
  proof (cases s)
    case Nil
    then show ?thesis
      by (simp add: rmatch_Seq_fixed [OF fixed_digit])
  next
    case (Cons a t)
    show ?thesis
    proof (cases "is_digit a")
      case False
      with Cons show ?thesis
        by (simp add: rmatch_Seq_fixed [OF fixed_digit])
    next
      case True
      have tk: "take (Suc (length (takeWhile is_digit t))) (a # t) = a # takeWhile is_digit t"
        using takeWhile_eq_take [of is_digit t] by simp
      have len: "length (takeWhile is_digit t) + length (dropWhile is_digit t) = length t"
        by (rule length_takeWhile_dropWhile)
      from True Cons have
        "concat (map (\<lambda>(n', s', c'). ?K n' s' c') (rmatch (Seq rx_digit (opts rx_digit 8)) n s c)) =
         concat (map (\<lambda>(n', s', c'). ?K n' s' c') (rmatch (opts rx_digit 8) (n + 1) t c))"
        by (simp add: rmatch_Seq_fixed [OF fixed_digit])
      also have "\<dots> =
         (if length (takeWhile is_digit t) \<le> 8
          then ?K (n + 1 + length (takeWhile is_digit t)) (dropWhile is_digit t) c else [])"
        by (rule opts_digit) (rule K)
      finally show ?thesis
        using True Cons tk len by (auto simp add: tz_eol)
    qed
  qed
  finally show ?thesis .
qed

lemma cat_tail_rx:
  "cat tail_rx =
     Seq (Opt (Seq (Cls [(CHR ''.'', CHR ''.''), (CHR '','', CHR '','')]) (Cap 7 (Rep rx_digit 1 9))))
         (Seq (Cap 8 rx_tz) (Seq Eol Emp))"
  by (simp add: tail_rx_def rx_frac_def)

lemma fixed_point:
  "fixed (Cls [(CHR ''.'', CHR ''.''), (CHR '','', CHR '','')]) 1 (\<lambda>w. is_point (hd w)) (\<lambda>w c. c)"
  using fixed_Cls [of "[(CHR ''.'', CHR ''.''), (CHR '','', CHR '','')]"]
  by (simp add: in_ranges_def is_point_def chr_eq [of _ "CHR ''.''"] chr_eq [of _ "CHR '',''"]
      eq_iff [symmetric] del: of_char_eq_iff)

lemma tail_F:
  "rmatch (cat tail_rx) n s c =
     (if s \<noteq> [] \<and> is_point (hd s) then
        (if 1 \<le> length (takeWhile is_digit (tl s)) \<and> length (takeWhile is_digit (tl s)) \<le> 9 \<and>
            tz_ok (dropWhile is_digit (tl s))
         then [(n + length s, [],
                c(7 \<mapsto> takeWhile is_digit (tl s), 8 \<mapsto> dropWhile is_digit (tl s)))]
         else [])
      else if tz_ok s then [(n + length s, [], c(8 \<mapsto> s))] else [])"
proof (cases "s \<noteq> [] \<and> is_point (hd s)")
  case True
  then obtain p t where s: "s = p # t" and p: "is_point p"
    by (cases s) auto
  from p have "\<not> tz_ok s"
    using tz_ok_hd [of s] by (auto simp add: s)
  with s p show ?thesis
    unfolding cat_tail_rx rmatch_Seq_Opt rmatch_Seq_assoc rmatch_Seq_fixed [OF fixed_point]
      cap7_digits tz_eol
    by simp
next
  case False
  then show ?thesis
    unfolding cat_tail_rx rmatch_Seq_Opt rmatch_Seq_assoc rmatch_Seq_fixed [OF fixed_point]
      cap7_digits tz_eol
    by (cases s) auto
qed

lemma tail_gen:
  assumes "frac_ok fr" and "tz_ok z"
  shows "rmatch (cat tail_rx) n (fr @ z) c = [(n + length (fr @ z), [], tail_caps fr z c)]"
proof (cases fr)
  case Nil
  with assms tz_ok_hd [OF assms(2)] show ?thesis
    by (cases z) (auto simp add: tail_F tail_caps_def)
next
  case (Cons p f)
  with assms(1) have p: "is_point p" and f: "1 \<le> length f" "length f \<le> 9" "list_all is_digit f"
    by (simp_all add: frac_ok_def)
  from tz_ok_hd [OF assms(2)] obtain a z' where z: "z = a # z'" and a: "\<not> is_digit a"
    by (cases z) auto
  from f(3) have "takeWhile is_digit (f @ z) = f" "dropWhile is_digit (f @ z) = z"
    using a by (simp_all add: z list_all_iff takeWhile_append dropWhile_append)
  with p f assms(2) show ?thesis
    by (simp add: tail_F Cons tail_caps_def)
qed

lemma tail_elim:
  assumes "e \<in> set (rmatch (cat tail_rx) n s c)"
  shows "\<exists>fr z. s = fr @ z \<and> frac_ok fr \<and> tz_ok z \<and> e = (n + length s, [], tail_caps fr z c)"
proof (cases "s \<noteq> [] \<and> is_point (hd s)")
  case True
  then obtain p t where s: "s = p # t" and p: "is_point p"
    by (cases s) auto
  let ?f = "takeWhile is_digit t" and ?z = "dropWhile is_digit t"
  from assms s p have *: "1 \<le> length ?f" "length ?f \<le> 9" "tz_ok ?z"
    and e: "e = (n + length s, [], c(7 \<mapsto> ?f, 8 \<mapsto> ?z))"
    by (auto simp add: tail_F split: if_splits)
  have "list_all is_digit ?f"
    by (simp add: list_all_iff) (meson set_takeWhileD)
  with * p have "frac_ok (p # ?f)"
    by (simp add: frac_ok_def)
  moreover have "s = (p # ?f) @ ?z"
    by (simp add: s)
  moreover from e * have "e = (n + length s, [], tail_caps (p # ?f) ?z c)"
    by (simp add: tail_caps_def)
  ultimately show ?thesis
    using *(3) by blast
next
  case False
  with assms have "tz_ok s" and "e = (n + length s, [], c(8 \<mapsto> s))"
    by (auto simp add: tail_F split: if_splits)
  then have "s = [] @ s \<and> frac_ok [] \<and> tz_ok s \<and> e = (n + length s, [], tail_caps [] s c)"
    by (simp add: frac_ok_def tail_caps_def)
  then show ?thesis by blast
qed

subsection \<open>The patterns as a whole\<close>

lemma variants_eq:
  "iso8601Variants =
     [variant_dt True True, variant_dt False False, variant_dt True False, variant_dt False True,
      variant_d True, variant_d False]"
  by (simp add: iso8601Variants_def variant_dt_def variant_d_def date_rx_def time_rx_def
      tail_rx_def dash_def colon_def)

lemma length_datestamp: "date_ok y m d \<Longrightarrow> length (datestamp hy y m d) = dlen hy"
  by (simp add: date_ok_def datestamp_def dash_def dlen_def field2_def year_ok_def)

lemma length_daytime: "time_ok h mi se \<Longrightarrow> length (daytime co h mi se) = tlen co"
  by (simp add: time_ok_def daytime_def colon_def tlen_def field2_def)

lemma variant_dt_gen:
  assumes "stamp_ok y m d sp h mi se fr z"
  shows "rmatch (variant_dt hy co) 0 (timestamp hy co y m d sp h mi se fr z) c =
         [(length (timestamp hy co y m d sp h mi se fr z), [],
           tail_caps fr z (c(1 \<mapsto> y, 2 \<mapsto> m, 3 \<mapsto> d, 4 \<mapsto> h, 5 \<mapsto> mi, 6 \<mapsto> se)))]"
proof -
  from assms have ok: "date_ok y m d" "is_sep sp" "time_ok h mi se" "frac_ok fr" "tz_ok z"
    by (simp_all add: stamp_ok_def)
  have "rmatch (variant_dt hy co) 0 (timestamp hy co y m d sp h mi se fr z) c =
        rmatch (cat (date_rx hy @ time_rx co @ tail_rx)) 0
          (datestamp hy y m d @ sp # daytime co h mi se @ fr @ z) c"
    by (simp add: variant_dt_def timestamp_def rmatch_Seq_Bol)
  also have "\<dots> = rmatch (cat (time_rx co @ tail_rx)) (0 + dlen hy)
          (sp # daytime co h mi se @ fr @ z) (c(1 \<mapsto> y, 2 \<mapsto> m, 3 \<mapsto> d))"
    by (rule date_gen [OF ok(1)])
  also have "\<dots> = rmatch (cat tail_rx) (0 + dlen hy + Suc (tlen co)) (fr @ z)
          (c(1 \<mapsto> y, 2 \<mapsto> m, 3 \<mapsto> d, 4 \<mapsto> h, 5 \<mapsto> mi, 6 \<mapsto> se))"
    by (rule time_gen [OF ok(2,3)])
  also have "\<dots> = [(0 + dlen hy + Suc (tlen co) + length (fr @ z), [],
          tail_caps fr z (c(1 \<mapsto> y, 2 \<mapsto> m, 3 \<mapsto> d, 4 \<mapsto> h, 5 \<mapsto> mi, 6 \<mapsto> se)))]"
    by (rule tail_gen [OF ok(4,5)])
  finally show ?thesis
    using ok by (simp add: timestamp_def length_datestamp length_daytime)
qed

lemma variant_dt_elim:
  assumes "e \<in> set (rmatch (variant_dt hy co) n s c)"
  shows "n = 0 \<and> (\<exists>y m d sp h mi se fr z.
           s = timestamp hy co y m d sp h mi se fr z \<and> stamp_ok y m d sp h mi se fr z)"
proof -
  from assms have n: "n = 0"
    and 1: "e \<in> set (rmatch (cat (date_rx hy @ time_rx co @ tail_rx)) 0 s c)"
    by (auto simp add: variant_dt_def rmatch_Seq_Bol split: if_splits)
  from date_elim [OF 1] obtain y m d x1 where s1: "s = datestamp hy y m d @ x1"
    and d: "date_ok y m d"
    and 2: "e \<in> set (rmatch (cat (time_rx co @ tail_rx)) (0 + dlen hy) x1
                     (c(1 \<mapsto> y, 2 \<mapsto> m, 3 \<mapsto> d)))"
    by blast
  from time_elim [OF 2] obtain sp h mi se x2 where s2: "x1 = sp # daytime co h mi se @ x2"
    and t: "is_sep sp" "time_ok h mi se"
    and 3: "e \<in> set (rmatch (cat tail_rx) (0 + dlen hy + Suc (tlen co)) x2
                     (c(1 \<mapsto> y, 2 \<mapsto> m, 3 \<mapsto> d, 4 \<mapsto> h, 5 \<mapsto> mi, 6 \<mapsto> se)))"
    by blast
  from tail_elim [OF 3] obtain fr z where s3: "x2 = fr @ z" and z: "frac_ok fr" "tz_ok z"
    by blast
  have "s = timestamp hy co y m d sp h mi se fr z"
    by (simp add: s1 s2 s3 timestamp_def)
  moreover have "stamp_ok y m d sp h mi se fr z"
    using d t z by (simp add: stamp_ok_def)
  ultimately show ?thesis
    using n by blast
qed

lemma variant_d_gen:
  assumes "date_ok y m d"
  shows "rmatch (variant_d hy) 0 (datestamp hy y m d) c =
         [(length (datestamp hy y m d), [], c(1 \<mapsto> y, 2 \<mapsto> m, 3 \<mapsto> d))]"
proof -
  have "rmatch (variant_d hy) 0 (datestamp hy y m d) c =
        rmatch (cat (date_rx hy @ [Eol])) 0 (datestamp hy y m d @ []) c"
    by (simp add: variant_d_def rmatch_Seq_Bol)
  also have "\<dots> = rmatch (cat [Eol]) (0 + dlen hy) [] (c(1 \<mapsto> y, 2 \<mapsto> m, 3 \<mapsto> d))"
    by (rule date_gen [OF assms])
  finally show ?thesis
    using assms by (simp add: length_datestamp rmatch.simps(6))
qed

lemma variant_d_elim:
  assumes "e \<in> set (rmatch (variant_d hy) n s c)"
  shows "n = 0 \<and> (\<exists>y m d. s = datestamp hy y m d \<and> date_ok y m d)"
proof -
  from assms have n: "n = 0"
    and 1: "e \<in> set (rmatch (cat (date_rx hy @ [Eol])) 0 s c)"
    by (auto simp add: variant_d_def rmatch_Seq_Bol split: if_splits)
  from date_elim [OF 1] obtain y m d x1 where s1: "s = datestamp hy y m d @ x1"
    and d: "date_ok y m d"
    and 2: "e \<in> set (rmatch (cat [Eol]) (0 + dlen hy) x1 (c(1 \<mapsto> y, 2 \<mapsto> m, 3 \<mapsto> d)))"
    by blast
  from 2 have "x1 = []"
    by (auto simp add: rmatch.simps(6) split: if_splits)
  with s1 d n show ?thesis
    by auto
qed

subsection \<open>Searching with an anchored pattern\<close>

lemma search_from_nomatch:
  assumes "\<And>n s. rmatch re (Suc n) s Map.empty = []"
  shows "search_from re (Suc n) s = None"
proof (induction s arbitrary: n)
  case Nil
  show ?case
    by (subst search_from.simps) (simp add: assms)
next
  case (Cons a s)
  show ?case
    by (subst search_from.simps) (simp add: assms Cons.IH)
qed

lemma search_from_0:
  assumes "\<And>n s. rmatch re (Suc n) s Map.empty = []"
  shows "search_from re 0 s =
         (case rmatch re 0 s Map.empty of [] \<Rightarrow> None | (n', _, c) # _ \<Rightarrow> Some (0, n', c))"
  by (subst search_from.simps)
     (auto simp add: search_from_nomatch [OF assms] split: list.splits)

lemma variant_dt_Suc: "rmatch (variant_dt hy co) (Suc n) s c = []"
  by (simp add: variant_dt_def rmatch_Seq_Bol)

lemma variant_d_Suc: "rmatch (variant_d hy) (Suc n) s c = []"
  by (simp add: variant_d_def rmatch_Seq_Bol)

lemma MatchString_dt_iff:
  "MatchString (variant_dt hy co) s \<longleftrightarrow>
     (\<exists>y m d sp h mi se fr z.
        s = timestamp hy co y m d sp h mi se fr z \<and> stamp_ok y m d sp h mi se fr z)"
proof
  assume "MatchString (variant_dt hy co) s"
  then obtain e where "e \<in> set (rmatch (variant_dt hy co) 0 s Map.empty)"
    by (auto simp add: MatchString_def search_from_0 [OF variant_dt_Suc] split: list.splits)
  from variant_dt_elim [OF this] show
    "\<exists>y m d sp h mi se fr z.
        s = timestamp hy co y m d sp h mi se fr z \<and> stamp_ok y m d sp h mi se fr z"
    by blast
next
  assume "\<exists>y m d sp h mi se fr z.
        s = timestamp hy co y m d sp h mi se fr z \<and> stamp_ok y m d sp h mi se fr z"
  then show "MatchString (variant_dt hy co) s"
    by (auto simp add: MatchString_def search_from_0 [OF variant_dt_Suc] variant_dt_gen)
qed

lemma MatchString_d_iff:
  "MatchString (variant_d hy) s \<longleftrightarrow> (\<exists>y m d. s = datestamp hy y m d \<and> date_ok y m d)"
proof
  assume "MatchString (variant_d hy) s"
  then obtain e where "e \<in> set (rmatch (variant_d hy) 0 s Map.empty)"
    by (auto simp add: MatchString_def search_from_0 [OF variant_d_Suc] split: list.splits)
  from variant_d_elim [OF this] show "\<exists>y m d. s = datestamp hy y m d \<and> date_ok y m d"
    by blast
next
  assume "\<exists>y m d. s = datestamp hy y m d \<and> date_ok y m d"
  then show "MatchString (variant_d hy) s"
    by (auto simp add: MatchString_def search_from_0 [OF variant_d_Suc] variant_d_gen)
qed

lemma upt_1_9: "[Suc 0 ..< 9] = [1, 2, 3, 4, 5, 6, 7, 8]"
  by (simp add: upt_conv_Cons numeral_eq_Suc)

lemma upt_1_4: "[Suc 0 ..< 4] = [1, 2, 3]"
  by (simp add: upt_conv_Cons numeral_eq_Suc)

lemma NumSubexp_dt: "NumSubexp (variant_dt hy co) = 8"
  by (simp add: variant_dt_def date_rx_def time_rx_def tail_rx_def dash_def colon_def rx_frac_def
      rx_tz_def rx_year_def rx_month_def rx_day_def rx_hour_def rx_minute_def rx_second_def
      rx_sep_def rx_digit_def Rep_def numeral_eq_Suc)

lemma NumSubexp_d: "NumSubexp (variant_d hy) = 3"
  by (simp add: variant_d_def date_rx_def dash_def rx_year_def rx_month_def rx_day_def
      rx_digit_def Rep_def numeral_eq_Suc)

lemma FindStringSubmatch_dt:
  assumes "stamp_ok y m d sp h mi se fr z"
  shows "FindStringSubmatch (variant_dt hy co) (timestamp hy co y m d sp h mi se fr z) =
         [timestamp hy co y m d sp h mi se fr z, y, m, d, h, mi, se, tl fr, z]"
  by (simp add: FindStringSubmatch_def search_from_0 [OF variant_dt_Suc] variant_dt_gen [OF assms]
      NumSubexp_dt upt_1_9 tail_caps_def)

lemma FindStringSubmatch_d:
  assumes "date_ok y m d"
  shows "FindStringSubmatch (variant_d hy) (datestamp hy y m d) = [datestamp hy y m d, y, m, d]"
  by (simp add: FindStringSubmatch_def search_from_0 [OF variant_d_Suc] variant_d_gen [OF assms]
      NumSubexp_d upt_1_4)

subsection \<open>Conversion of the fields\<close>

lemma dec_snoc: "dec (w @ [x]) = 10 * dec w + digit_val x"
  by (simp add: dec_def)

lemma dec_bounds: "list_all is_digit w \<Longrightarrow> 0 \<le> dec w \<and> dec w < 10 ^ length w"
proof (induction w rule: rev_induct)
  case Nil
  show ?case by (simp add: dec_def)
next
  case (snoc x w)
  then have "0 \<le> dec w" "dec w < 10 ^ length w" "0 \<le> digit_val x" "digit_val x \<le> 9"
    by (simp_all add: is_digit_def digit_val_def)
  then show ?case
    by (simp add: dec_snoc)
qed

lemma atoip_digits:
  assumes "list_all is_digit w" and "w \<noteq> []" and "length w \<le> 18"
  shows "atoip w = Return (dec w)"
proof -
  from assms(1,2) have hd: "hd w \<noteq> CHR ''-''" "hd w \<noteq> CHR ''+''"
    by (cases w; auto simp add: is_digit_def)+
  have "(10::int) ^ length w \<le> 10 ^ 18"
    using assms(3) by (intro power_increasing) simp_all
  with dec_bounds [OF assms(1)] have "0 \<le> dec w" "dec w < 2 ^ 63"
    by simp_all
  with assms hd show ?thesis
    by (simp add: atoip_def Atoi_def Let_def)
qed

lemma atoip_field2: "field2 lo hi w \<Longrightarrow> atoip w = Return (dec w)"
  by (rule atoip_digits) (auto simp add: field2_def)

lemma atoip_year: "year_ok w \<Longrightarrow> atoip w = Return (dec w)"
  by (rule atoip_digits) (auto simp add: year_ok_def)

lemma pad_frac_eq: "pad_frac f = f @ replicate (9 - length f) CHR ''0''"
proof (induction f rule: pad_frac.induct)
  case (1 f)
  show ?case
  proof (cases "length f < 9")
    case True
    then have "9 - length f = Suc (9 - Suc (length f))"
      by simp
    with True 1 show ?thesis
      by (subst pad_frac.simps) (simp add: replicate_app_Cons_same)
  next
    case False
    then show ?thesis
      by (subst pad_frac.simps) simp
  qed
qed

lemma atoip_pad:
  assumes "1 \<le> length f" and "length f \<le> 9" and "list_all is_digit f"
  shows "atoip (pad_frac f) = Return (dec (f @ replicate (9 - length f) CHR ''0''))"
proof -
  have z: "is_digit CHR ''0''"
    by (simp add: is_digit_def)
  from assms(1) have "f \<noteq> []"
    by auto
  with assms have "atoip (f @ replicate (9 - length f) CHR ''0'') =
               Return (dec (f @ replicate (9 - length f) CHR ''0''))"
    by (intro atoip_digits) (auto simp add: list_all_iff z)
  then show ?thesis
    by (simp add: pad_frac_eq)
qed

lemma atoip_frac:
  assumes "frac_ok fr" and "fr \<noteq> []"
  shows "tl fr \<noteq> [] \<and> atoip (pad_frac (tl fr)) = Return (nanosec fr)"
proof -
  define f where "f = tl fr"
  from assms have f: "1 \<le> length f" "length f \<le> 9" "list_all is_digit f"
    by (simp_all add: frac_ok_def f_def)
  from f(1) have "f \<noteq> []"
    by auto
  with atoip_pad [OF f] show ?thesis
    by (simp add: nanosec_def f_def [symmetric])
qed

lemma obind_Return [simp]: "obind (Return x) f = f x"
  by (simp add: obind_def)

lemma obind_Panic [simp]: "obind (Panic p) f = Panic p"
  by (simp add: obind_def)

lemma obind_eq_Return:
  "obind m f = Return r \<longleftrightarrow> (\<exists>x. m = Return x \<and> f x = Return r)"
  by (cases m) simp_all

lemma matched_d:
  assumes "date_ok y m d"
  shows "matched (variant_d hy) (datestamp hy y m d) =
         Return (time_Date (dec y) (dec m) (dec d) 0 0 0 0 time_UTC, None)"
proof -
  from assms have "atoip y = Return (dec y)" "atoip m = Return (dec m)" "atoip d = Return (dec d)"
    by (auto simp add: date_ok_def intro: atoip_year atoip_field2)
  then show ?thesis
    by (simp add: matched_def FindStringSubmatch_d [OF assms] index_def time_of_day_def)
qed

lemma matched_dt:
  assumes "stamp_ok y m d sp h mi se fr z"
  shows "matched (variant_dt hy co) (timestamp hy co y m d sp h mi se fr z) =
         obind (zone_of z) (\<lambda>loc.
           Return (time_Date (dec y) (dec m) (dec d) (dec h) (dec mi) (dec se) (nanosec fr) loc,
                   None))"
proof -
  from assms have ok: "year_ok y" "field2 1 12 m" "field2 1 31 d" "field2 0 23 h"
    "field2 0 59 mi" "field2 0 61 se" "frac_ok fr"
    by (simp_all add: stamp_ok_def date_ok_def time_ok_def)
  have fr: "(if tl fr \<noteq> [] then atoip (pad_frac (tl fr)) else Return 0) = Return (nanosec fr)"
  proof (cases "fr = []")
    case True
    then show ?thesis by (simp add: nanosec_def)
  next
    case False
    with atoip_frac [OF ok(7)] show ?thesis
      by simp
  qed
  from ok have "atoip y = Return (dec y)" "atoip m = Return (dec m)" "atoip d = Return (dec d)"
    "atoip h = Return (dec h)" "atoip mi = Return (dec mi)" "atoip se = Return (dec se)"
    by (auto intro: atoip_year atoip_field2)
  then show ?thesis
    by (simp add: matched_def FindStringSubmatch_dt [OF assms] index_def time_of_day_def
        fr zone_of_def)
qed

lemma matched_no_error: "matched re s \<noteq> Return (tm, Some e)"
  by (auto simp add: matched_def Let_def obind_eq_Return split: prod.splits)

lemma try_variants_find:
  "try_variants vs s after =
     (case List.find (\<lambda>re. MatchString re s) vs of None \<Rightarrow> after | Some re \<Rightarrow> matched re s)"
  by (induction vs) simp_all

subsection \<open>At most one pattern matches\<close>

lemma field2D: "field2 lo hi w \<Longrightarrow> \<exists>a b. w = [a, b] \<and> is_digit a \<and> is_digit b"
  by (auto simp add: field2_def length_Suc_conv numeral_eq_Suc)

lemma year_okD:
  "year_ok w \<Longrightarrow> \<exists>a b c d. w = [a, b, c, d] \<and> is_digit a \<and> is_digit b \<and> is_digit c \<and> is_digit d"
  by (auto simp add: year_ok_def length_Suc_conv numeral_eq_Suc)

lemma digit_not:
  assumes "is_digit a"
  shows "a \<noteq> CHR ''-''" "a \<noteq> CHR '':''" "a \<noteq> CHR ''+''" "a \<noteq> CHR ''Z''" "a \<noteq> CHR ''.''"
    "a \<noteq> CHR '',''" "\<not> is_sep a" "\<not> is_point a"
  using assms by (auto simp add: is_digit_def is_sep_def is_point_def)

lemma datestamp_nth4:
  assumes "date_ok y m d"
  shows "((datestamp hy y m d @ x) ! 4 = CHR ''-'') = hy"
proof -
  from assms obtain y0 y1 y2 y3 m0 m1 where "y = [y0, y1, y2, y3]" "m = [m0, m1]" "is_digit m0"
    by (auto simp add: date_ok_def dest!: year_okD field2D)
  then show ?thesis
    by (auto simp add: datestamp_def dash_def digit_not)
qed

lemma timestamp_colon:
  assumes "stamp_ok y m d sp h mi se fr z"
  shows "(timestamp hy co y m d sp h mi se fr z ! (dlen hy + 3) = CHR '':'') = co"
proof -
  from assms have "length (datestamp hy y m d) = dlen hy"
    by (simp add: stamp_ok_def length_datestamp)
  then have "timestamp hy co y m d sp h mi se fr z ! (dlen hy + 3) =
             (sp # daytime co h mi se @ fr @ z) ! 3"
    by (simp add: timestamp_def nth_append)
  moreover from assms obtain h0 h1 i0 i1 where "h = [h0, h1]" "mi = [i0, i1]" "is_digit i0"
    by (auto simp add: stamp_ok_def time_ok_def dest!: field2D)
  ultimately show ?thesis
    by (auto simp add: daytime_def colon_def digit_not)
qed

lemma tz_ok_nonempty: "tz_ok z \<Longrightarrow> z \<noteq> []"
  using tz_ok_hd by blast

lemma length_timestamp:
  assumes "stamp_ok y m d sp h mi se fr z"
  shows "length (timestamp hy co y m d sp h mi se fr z) =
         dlen hy + Suc (tlen co) + length fr + length z"
  using assms by (simp add: timestamp_def stamp_ok_def length_datestamp length_daytime)

lemma timestamp_long:
  assumes "stamp_ok y m d sp h mi se fr z"
  shows "16 \<le> length (timestamp hy co y m d sp h mi se fr z)"
proof -
  from assms have "z \<noteq> []"
    by (simp add: stamp_ok_def tz_ok_nonempty)
  then have "1 \<le> length z"
    by (cases z) simp_all
  then show ?thesis
    by (simp add: length_timestamp [OF assms] dlen_def tlen_def)
qed

lemma MatchString_dt_timestamp:
  assumes "stamp_ok y m d sp h mi se fr z"
  shows "MatchString (variant_dt hy' co') (timestamp hy co y m d sp h mi se fr z) =
         (hy' = hy \<and> co' = co)"
proof
  assume "hy' = hy \<and> co' = co"
  with assms show "MatchString (variant_dt hy' co') (timestamp hy co y m d sp h mi se fr z)"
    unfolding MatchString_dt_iff by blast
next
  assume "MatchString (variant_dt hy' co') (timestamp hy co y m d sp h mi se fr z)"
  then obtain y' m' d' sp' h' mi' se' fr' z'
    where eq: "timestamp hy co y m d sp h mi se fr z = timestamp hy' co' y' m' d' sp' h' mi' se' fr' z'"
      and ok: "stamp_ok y' m' d' sp' h' mi' se' fr' z'"
    by (auto simp add: MatchString_dt_iff)
  from assms ok have d: "date_ok y m d" "date_ok y' m' d'"
    by (simp_all add: stamp_ok_def)
  have "hy = ((timestamp hy co y m d sp h mi se fr z) ! 4 = CHR ''-'')"
    using datestamp_nth4 [OF d(1)] by (simp add: timestamp_def)
  also have "\<dots> = hy'"
    unfolding eq using datestamp_nth4 [OF d(2)] by (simp add: timestamp_def)
  finally have hy: "hy' = hy" by simp
  from eq hy have eq':
    "timestamp hy co y m d sp h mi se fr z = timestamp hy co' y' m' d' sp' h' mi' se' fr' z'"
    by simp
  have "co = ((timestamp hy co y m d sp h mi se fr z) ! (dlen hy + 3) = CHR '':'')"
    by (simp add: timestamp_colon [OF assms])
  also have "\<dots> = co'"
    unfolding eq' by (simp add: timestamp_colon [OF ok])
  finally show "hy' = hy \<and> co' = co"
    using hy by simp
qed

lemma MatchString_d_timestamp:
  assumes "stamp_ok y m d sp h mi se fr z"
  shows "\<not> MatchString (variant_d hy') (timestamp hy co y m d sp h mi se fr z)"
proof
  assume "MatchString (variant_d hy') (timestamp hy co y m d sp h mi se fr z)"
  then obtain y' m' d' where "timestamp hy co y m d sp h mi se fr z = datestamp hy' y' m' d'"
    and "date_ok y' m' d'"
    by (auto simp add: MatchString_d_iff)
  then have "length (timestamp hy co y m d sp h mi se fr z) = dlen hy'"
    by (simp add: length_datestamp)
  with timestamp_long [OF assms, of hy co] show False
    by (simp add: dlen_def split: if_splits)
qed

lemma MatchString_dt_datestamp:
  assumes "date_ok y m d"
  shows "\<not> MatchString (variant_dt hy' co') (datestamp hy y m d)"
proof
  assume "MatchString (variant_dt hy' co') (datestamp hy y m d)"
  then obtain y' m' d' sp' h' mi' se' fr' z'
    where eq: "datestamp hy y m d = timestamp hy' co' y' m' d' sp' h' mi' se' fr' z'"
      and ok: "stamp_ok y' m' d' sp' h' mi' se' fr' z'"
    by (auto simp add: MatchString_dt_iff)
  from timestamp_long [OF ok, of hy' co'] have "16 \<le> length (datestamp hy y m d)"
    by (simp add: eq)
  with assms show False
    by (simp add: length_datestamp dlen_def split: if_splits)
qed

lemma MatchString_d_datestamp:
  assumes "date_ok y m d"
  shows "MatchString (variant_d hy') (datestamp hy y m d) = (hy' = hy)"
proof
  assume "hy' = hy"
  with assms show "MatchString (variant_d hy') (datestamp hy y m d)"
    unfolding MatchString_d_iff by blast
next
  assume "MatchString (variant_d hy') (datestamp hy y m d)"
  then obtain y' m' d' where "datestamp hy y m d = datestamp hy' y' m' d'" and "date_ok y' m' d'"
    by (auto simp add: MatchString_d_iff)
  with assms have "dlen hy = dlen hy'"
    by (metis length_datestamp)
  then show "hy' = hy"
    by (simp add: dlen_def split: if_splits)
qed

lemma match_cases:
  "(\<exists>re \<in> set iso8601Variants. MatchString re s) \<longleftrightarrow>
     (\<exists>hy y m d. s = datestamp hy y m d \<and> date_ok y m d) \<or>
     (\<exists>hy co y m d sp h mi se fr z.
        s = timestamp hy co y m d sp h mi se fr z \<and> stamp_ok y m d sp h mi se fr z)"
  (is "?L \<longleftrightarrow> ?D \<or> ?T")
proof
  assume ?L
  then consider hy co where "MatchString (variant_dt hy co) s" | hy where "MatchString (variant_d hy) s"
    by (auto simp add: variants_eq)
  then show "?D \<or> ?T"
  proof cases
    case 1
    then have ?T by (simp only: MatchString_dt_iff) blast
    then show ?thesis ..
  next
    case 2
    then have ?D by (simp only: MatchString_d_iff) blast
    then show ?thesis ..
  qed
next
  assume "?D \<or> ?T"
  then show ?L
  proof
    assume ?D
    then obtain hy where "MatchString (variant_d hy) s"
      by (auto simp add: MatchString_d_iff)
    then show ?L
      by (cases hy) (auto simp add: variants_eq)
  next
    assume ?T
    then obtain hy co where "MatchString (variant_dt hy co) s"
      unfolding MatchString_dt_iff by blast
    then show ?L
      by (cases hy; cases co) (auto simp add: variants_eq)
  qed
qed

subsection \<open>The loop over the patterns\<close>

lemma try_variants_timestamp:
  assumes "stamp_ok y m d sp h mi se fr z"
  shows "try_variants iso8601Variants (timestamp hy co y m d sp h mi se fr z) after =
         obind (zone_of z) (\<lambda>loc.
           Return (time_Date (dec y) (dec m) (dec d) (dec h) (dec mi) (dec se) (nanosec fr) loc,
                   None))"
  by (cases hy; cases co)
     (simp_all add: variants_eq MatchString_dt_timestamp [OF assms] matched_dt [OF assms])

lemma try_variants_datestamp:
  assumes "date_ok y m d"
  shows "try_variants iso8601Variants (datestamp hy y m d) after =
         Return (time_Date (dec y) (dec m) (dec d) 0 0 0 0 time_UTC, None)"
  by (cases hy)
     (simp_all add: variants_eq MatchString_dt_datestamp [OF assms] MatchString_d_datestamp [OF assms]
        matched_d [OF assms])

lemma try_variants_nomatch:
  assumes "\<not> (\<exists>re \<in> set vs. MatchString re s)"
  shows "try_variants vs s after = after"
  using assms by (induction vs) simp_all

lemma try_variants_error:
  "try_variants vs s (Return (tm0, Some e0)) = Return (tm, Some e) \<longleftrightarrow>
     \<not> (\<exists>re \<in> set vs. MatchString re s) \<and> tm = tm0 \<and> e = e0"
  by (induction vs) (auto simp add: matched_no_error)

lemma parse_pe_error:
  "ParseISO8601Timestamp_pe s = Return (tm, Some e) \<longleftrightarrow>
     \<not> (\<exists>re \<in> set iso8601Variants. MatchString re s) \<and> tm = zero_Time \<and>
     e = ParseError ''ISO 8601'' s '''' '''' '': timestamp is not in ISO 8601 format''"
  unfolding ParseISO8601Timestamp_pe_def by (rule try_variants_error)

lemma slice_inner:
  assumes "2 \<le> length s"
  shows "slice s (Suc 0) (length s - Suc 0) = Return (butlast (tl s))"
proof -
  have "take (length s - Suc 0 - Suc 0) (drop (Suc 0) s) = butlast (tl s)"
    by (simp add: butlast_conv_take drop_Suc)
  moreover from assms have "Suc 0 \<le> length s - Suc 0"
    by simp
  ultimately show ?thesis
    by (simp add: slice_def)
qed

lemma not_quoted_iff:
  "(length s < 2 \<or>
     (\<not> (s ! 0 = CHR 0x22 \<and> s ! (length s - 1) = CHR 0x22) \<and>
      \<not> (s ! 0 = CHR 0x27 \<and> s ! (length s - 1) = CHR 0x27))) = (\<not> quoted s)"
proof (cases "2 \<le> length s")
  case True
  then have "s \<noteq> []"
    by auto
  then have "hd s = s ! 0" "last s = s ! (length s - 1)"
    by (simp_all add: hd_conv_nth last_conv_nth)
  with True show ?thesis
    by (auto simp add: quoted_def)
next
  case False
  then show ?thesis
    by (simp add: quoted_def)
qed

lemma quoted_not_null: "quoted s \<Longrightarrow> s \<noteq> ''null''"
  by (auto simp add: quoted_def)

lemma UnmarshalJSON_not_string:
  assumes "data \<noteq> ''null''" and "\<not> quoted data"
  shows "UnmarshalJSON t data =
        Return (t, Some (ParseError ''ISO 8601'' data '''' ''''
                           '': timestamp must be a JSON string literal''))"
  using assms unfolding UnmarshalJSON_def Let_def not_quoted_iff by simp

lemma UnmarshalJSON_quoted:
  assumes "quoted data"
  shows "UnmarshalJSON t data =
        obind (ParseISO8601Timestamp_pe (butlast (tl data)))
          (\<lambda>(tm, err). Return (t\<lparr>Time := tm\<rparr>, err))"
proof -
  from assms have "2 \<le> length data"
    by (simp add: quoted_def)
  with assms quoted_not_null [OF assms] show ?thesis
    unfolding UnmarshalJSON_def Let_def not_quoted_iff by (simp add: slice_inner)
qed

subsection \<open>The parser on the two kinds of accepted input\<close>


lemma parse_nomatch:
  "\<not> (\<exists>re \<in> set iso8601Variants. MatchString re s) \<Longrightarrow>
   ParseISO8601Timestamp s =
     Return (zero_Time, Some (stacktrace_NewError ''Invalid ISO 8601 timestamp: %#v'' s))"
  by (simp add: ParseISO8601Timestamp_def try_variants_nomatch)

lemma parse_timestamp:
  assumes "stamp_ok y m d sp h mi se fr z"
  shows "ParseISO8601Timestamp (timestamp hy co y m d sp h mi se fr z) =
         obind (zone_of z) (\<lambda>loc.
           Return (time_Date (dec y) (dec m) (dec d) (dec h) (dec mi) (dec se) (nanosec fr) loc,
                   None))"
  unfolding ParseISO8601Timestamp_def by (rule try_variants_timestamp [OF assms])

lemma parse_datestamp:
  assumes "date_ok y m d"
  shows "ParseISO8601Timestamp (datestamp hy y m d) =
         Return (time_Date (dec y) (dec m) (dec d) 0 0 0 0 time_UTC, None)"
  unfolding ParseISO8601Timestamp_def by (rule try_variants_datestamp [OF assms])

lemma parse_accepted:
  assumes "ParseISO8601Timestamp s = Return (tm, None)"
  shows "(\<exists>hy y m d. s = datestamp hy y m d \<and> date_ok y m d \<and>
            tm = time_Date (dec y) (dec m) (dec d) 0 0 0 0 time_UTC) \<or>
         (\<exists>hy co y m d sp h mi se fr z loc.
            s = timestamp hy co y m d sp h mi se fr z \<and> stamp_ok y m d sp h mi se fr z \<and>
            zone_of z = Return loc \<and>
            tm = time_Date (dec y) (dec m) (dec d) (dec h) (dec mi) (dec se) (nanosec fr) loc)"
proof -
  have "\<exists>re \<in> set iso8601Variants. MatchString re s"
  proof (rule ccontr)
    assume "\<not> (\<exists>re \<in> set iso8601Variants. MatchString re s)"
    from parse_nomatch [OF this] assms show False
      by simp
  qed
  then consider hy y m d where "s = datestamp hy y m d" "date_ok y m d"
    | hy co y m d sp h mi se fr z where "s = timestamp hy co y m d sp h mi se fr z"
        "stamp_ok y m d sp h mi se fr z"
    unfolding match_cases by blast
  then show ?thesis
  proof cases
    case 1
    with assms parse_datestamp [OF 1(2), of hy] have
      "tm = time_Date (dec y) (dec m) (dec d) 0 0 0 0 time_UTC"
      by simp
    with 1 show ?thesis by blast
  next
    case 2
    with assms parse_timestamp [OF 2(2), of hy co] obtain loc where
      "zone_of z = Return loc"
      "tm = time_Date (dec y) (dec m) (dec d) (dec h) (dec mi) (dec se) (nanosec fr) loc"
      by (auto simp add: obind_eq_Return)
    with 2 show ?thesis by blast
  qed
qed

lemmas stamp_defs =
  stamp_ok_def date_ok_def time_ok_def year_ok_def field2_def is_digit_def is_sep_def
  is_point_def frac_ok_def tz_ok_def tz_min_ok_def dec_def digit_val_def

lemmas stamp_text = timestamp_def datestamp_def daytime_def dash_def colon_def

subsection \<open>The characters of an accepted input\<close>

lemma tz_min_ok_chars:
  assumes "tz_min_ok r" and "x \<in> set r"
  shows "is_digit x \<or> x = CHR '':''"
proof -
  from assms(1) consider "r = []" | "r = '':''" | "field2 0 59 r"
    | "length r = 3 \<and> hd r = CHR '':'' \<and> field2 0 59 (tl r)"
    by (auto simp add: tz_min_ok_def)
  then show ?thesis
  proof cases
    case 1
    with assms(2) show ?thesis by simp
  next
    case 2
    with assms(2) show ?thesis by simp
  next
    case 3
    from field2D [OF this] assms(2) show ?thesis by auto
  next
    case 4
    then obtain a t where "r = a # t" "a = CHR '':''" "field2 0 59 t"
      by (cases r) auto
    with field2D [of 0 59 t] assms(2) show ?thesis by auto
  qed
qed

lemma tz_ok_chars:
  assumes "tz_ok z" and "x \<in> set z"
  shows "is_digit x \<or> x = CHR '':'' \<or> x = CHR ''Z'' \<or> x = CHR ''+'' \<or> x = CHR ''-''"
proof (cases "z = ''Z''")
  case True
  with assms(2) show ?thesis by simp
next
  case False
  with assms(1) have *: "3 \<le> length z" "z ! 0 = CHR ''-'' \<or> z ! 0 = CHR ''+''"
    "z ! 1 = CHR ''0'' \<or> z ! 1 = CHR ''1''" "is_digit (z ! 2)" "tz_min_ok (drop 3 z)"
    by (simp_all add: tz_ok_def)
  from *(1) obtain sg a b r where z: "z = sg # a # b # r"
    by (auto simp add: Suc_le_length_iff numeral_eq_Suc)
  with * have "sg = CHR ''-'' \<or> sg = CHR ''+''" "is_digit a" "is_digit b" "tz_min_ok r"
    by (auto simp add: is_digit_def)
  with assms(2) z tz_min_ok_chars [of r x] show ?thesis
    by auto
qed

lemma tz_ok_first:
  assumes "tz_ok z"
  obtains a r where "z = a # r" "a = CHR ''Z'' \<or> a = CHR ''+'' \<or> a = CHR ''-''"
proof (cases "z = ''Z''")
  case True
  with that show thesis by simp
next
  case False
  with assms have "3 \<le> length z" "z ! 0 = CHR ''-'' \<or> z ! 0 = CHR ''+''"
    by (simp_all add: tz_ok_def)
  then obtain a r where "z = a # r" "a = CHR ''-'' \<or> a = CHR ''+''"
    by (cases z) auto
  with that show thesis by blast
qed

lemma not_point: "is_digit x \<or> x = CHR '':'' \<or> x = CHR ''Z'' \<or> x = CHR ''+'' \<or> x = CHR ''-'' \<Longrightarrow> \<not> is_point x"
  by (auto simp add: is_point_def is_digit_def)

lemma sep_not_point: "is_sep x \<Longrightarrow> \<not> is_point x"
  by (auto simp add: is_point_def is_sep_def)

lemma datestamp_chars:
  assumes "date_ok y m d" and "x \<in> set (datestamp hy y m d)"
  shows "is_digit x \<or> x = CHR ''-''"
  using assms
  by (auto simp add: datestamp_def dash_def date_ok_def year_ok_def field2_def list_all_iff
      split: if_splits)

lemma daytime_chars:
  assumes "time_ok h mi se" and "x \<in> set (daytime co h mi se)"
  shows "is_digit x \<or> x = CHR '':''"
  using assms
  by (auto simp add: daytime_def colon_def time_ok_def field2_def list_all_iff split: if_splits)

lemma datestamp_no_point:
  assumes "date_ok y m d" and "x \<in> set (datestamp hy y m d)"
  shows "\<not> is_point x \<and> \<not> is_sep x"
  using datestamp_chars [OF assms]
  by (auto simp add: is_point_def is_sep_def is_digit_def)

lemma daytime_no_point:
  assumes "time_ok h mi se" and "x \<in> set (daytime co h mi se)"
  shows "\<not> is_point x \<and> x \<noteq> CHR ''Z'' \<and> x \<noteq> CHR ''+'' \<and> x \<noteq> CHR ''-''"
  using daytime_chars [OF assms]
  by (auto simp add: is_point_def is_digit_def)

subsection \<open>Segments and fraction of an accepted input\<close>

lemma frac_digits_timestamp:
  assumes "stamp_ok y m d sp h mi se fr z"
  shows "frac_digits (timestamp hy co y m d sp h mi se fr z) = tl fr"
proof -
  from assms have ok: "date_ok y m d" "is_sep sp" "time_ok h mi se" "frac_ok fr" "tz_ok z"
    by (simp_all add: stamp_ok_def)
  have "\<And>x. x \<in> set (datestamp hy y m d @ sp # daytime co h mi se) \<Longrightarrow> \<not> is_point x"
    using datestamp_no_point [OF ok(1)] daytime_no_point [OF ok(3)] sep_not_point [OF ok(2)]
    by auto
  then have 1: "dropWhile (\<lambda>x. \<not> is_point x) (timestamp hy co y m d sp h mi se fr z) =
             dropWhile (\<lambda>x. \<not> is_point x) (fr @ z)"
    using dropWhile_append2 [of "datestamp hy y m d @ sp # daytime co h mi se"
            "\<lambda>x. \<not> is_point x" "fr @ z"]
    by (simp add: timestamp_def)
  have zp: "\<And>x. x \<in> set z \<Longrightarrow> \<not> is_point x"
    using tz_ok_chars [OF ok(5)] not_point by blast
  show ?thesis
  proof (cases fr)
    case Nil
    with zp have "dropWhile (\<lambda>x. \<not> is_point x) (fr @ z) = []"
      by (simp add: dropWhile_eq_Nil_conv)
    with Nil 1 show ?thesis
      by (simp only: frac_digits_def list.case list.sel)
  next
    case (Cons p f)
    with ok(4) have p: "is_point p" and f: "list_all is_digit f"
      by (simp_all add: frac_ok_def)
    from tz_ok_hd [OF ok(5)] obtain a z' where z: "z = a # z'" and a: "\<not> is_digit a"
      by (cases z) auto
    from f a have "takeWhile is_digit (f @ z) = f"
      by (simp add: z list_all_iff takeWhile_append)
    with p Cons 1 show ?thesis
      by (simp add: frac_digits_def)
  qed
qed

lemma frac_digits_datestamp:
  assumes "date_ok y m d"
  shows "frac_digits (datestamp hy y m d) = []"
proof -
  have "dropWhile (\<lambda>x. \<not> is_point x) (datestamp hy y m d) = []"
    using datestamp_no_point [OF assms] by (simp add: dropWhile_eq_Nil_conv)
  then show ?thesis
    by (simp only: frac_digits_def list.case)
qed

lemma date_segment_timestamp:
  assumes "stamp_ok y m d sp h mi se fr z"
  shows "date_segment (timestamp hy co y m d sp h mi se fr z) = datestamp hy y m d"
    and "dropWhile (\<lambda>x. \<not> is_sep x) (timestamp hy co y m d sp h mi se fr z) =
         sp # daytime co h mi se @ fr @ z"
proof -
  from assms have ok: "date_ok y m d" "is_sep sp"
    by (simp_all add: stamp_ok_def)
  have *: "\<And>x. x \<in> set (datestamp hy y m d) \<Longrightarrow> \<not> is_sep x"
    using datestamp_no_point [OF ok(1)] by blast
  from * ok(2) show "date_segment (timestamp hy co y m d sp h mi se fr z) = datestamp hy y m d"
    by (simp add: date_segment_def timestamp_def takeWhile_append2)
  from * ok(2) show "dropWhile (\<lambda>x. \<not> is_sep x) (timestamp hy co y m d sp h mi se fr z) =
         sp # daytime co h mi se @ fr @ z"
    by (simp add: timestamp_def dropWhile_append2)
qed

lemma date_segment_datestamp:
  assumes "date_ok y m d"
  shows "date_segment (datestamp hy y m d) = datestamp hy y m d"
    and "dropWhile (\<lambda>x. \<not> is_sep x) (datestamp hy y m d) = []"
  using datestamp_no_point [OF assms]
  by (simp_all add: date_segment_def dropWhile_eq_Nil_conv takeWhile_eq_all_conv)

lemma time_segment_timestamp:
  assumes "stamp_ok y m d sp h mi se fr z"
  shows "time_segment (timestamp hy co y m d sp h mi se fr z) = daytime co h mi se"
proof -
  from assms have ok: "time_ok h mi se" "frac_ok fr" "tz_ok z"
    by (simp_all add: stamp_ok_def)
  obtain a r where ar: "fr @ z = a # r"
    "is_point a \<or> a = CHR ''Z'' \<or> a = CHR ''+'' \<or> a = CHR ''-''"
  proof (cases fr)
    case Nil
    from tz_ok_first [OF ok(3)] obtain a r where "z = a # r"
      "a = CHR ''Z'' \<or> a = CHR ''+'' \<or> a = CHR ''-''"
      by blast
    with Nil that show thesis by simp
  next
    case (Cons p f)
    with ok(2) have "is_point p"
      by (simp add: frac_ok_def)
    with Cons that show thesis by simp
  qed
  have "takeWhile (\<lambda>x. \<not> is_point x \<and> x \<noteq> CHR ''Z'' \<and> x \<noteq> CHR ''+'' \<and> x \<noteq> CHR ''-'')
          (daytime co h mi se @ a # r) = daytime co h mi se"
    using daytime_no_point [OF ok(1)] ar(2)
    by (subst takeWhile_append2) auto
  then show ?thesis
    by (simp add: time_segment_def date_segment_timestamp(2) [OF assms] ar(1))
qed

lemma time_segment_datestamp:
  assumes "date_ok y m d"
  shows "time_segment (datestamp hy y m d) = []"
  by (simp add: time_segment_def date_segment_datestamp(2) [OF assms])

lemma positions_append:
  "positions x i (u @ v) = positions x i u @ positions x (i + length u) v"
  by (induction u arbitrary: i) simp_all

lemma positions_none: "(\<And>a. a \<in> set w \<Longrightarrow> a \<noteq> x) \<Longrightarrow> positions x i w = []"
  by (induction w arbitrary: i) simp_all

lemma field2_digit: "field2 lo hi w \<Longrightarrow> a \<in> set w \<Longrightarrow> is_digit a"
  by (simp add: field2_def list_all_iff)

lemma year_digit: "year_ok w \<Longrightarrow> a \<in> set w \<Longrightarrow> is_digit a"
  by (simp add: year_ok_def list_all_iff)

lemma positions_datestamp:
  assumes "date_ok y m d"
  shows "positions CHR ''-'' 0 (datestamp hy y m d) = (if hy then [4, 7] else [])"
proof -
  from assms have ok: "year_ok y" "field2 1 12 m" "field2 1 31 d"
    by (simp_all add: date_ok_def)
  then have len: "length y = 4" "length m = 2"
    by (simp_all add: year_ok_def field2_def)
  have "positions CHR ''-'' i y = []" "positions CHR ''-'' i m = []" "positions CHR ''-'' i d = []"
    for i
    using ok
    by (auto intro!: positions_none dest: year_digit field2_digit digit_not(1))
  then show ?thesis
    by (simp add: datestamp_def dash_def positions_append len)
qed

lemma positions_daytime:
  assumes "time_ok h mi se"
  shows "positions CHR '':'' 0 (daytime co h mi se) = (if co then [2, 5] else [])"
proof -
  from assms have ok: "field2 0 23 h" "field2 0 59 mi" "field2 0 61 se"
    by (simp_all add: time_ok_def)
  then have len: "length h = 2" "length mi = 2"
    by (simp_all add: field2_def)
  have "positions CHR '':'' i h = []" "positions CHR '':'' i mi = []" "positions CHR '':'' i se = []"
    for i
    using ok
    by (auto intro!: positions_none dest: field2_digit digit_not(2))
  then show ?thesis
    by (simp add: daytime_def colon_def positions_append len)
qed

lemma accepted_not_mixed:
  assumes "\<exists>re \<in> set iso8601Variants. MatchString re s"
  shows "\<not> mixed_date s \<and> \<not> mixed_time s"
proof -
  from assms consider hy y m d where "s = datestamp hy y m d" "date_ok y m d"
    | hy co y m d sp h mi se fr z where "s = timestamp hy co y m d sp h mi se fr z"
        "stamp_ok y m d sp h mi se fr z"
    unfolding match_cases by blast
  then show ?thesis
  proof cases
    case 1
    then show ?thesis
      by (simp add: mixed_date_def mixed_time_def date_segment_datestamp(1) positions_datestamp
          time_segment_datestamp)
  next
    case 2
    then have "date_ok y m d" "time_ok h mi se"
      by (simp_all add: stamp_ok_def)
    with 2 show ?thesis
      by (simp add: mixed_date_def mixed_time_def date_segment_timestamp(1) positions_datestamp
          time_segment_timestamp positions_daytime)
  qed
qed

subsection \<open>Permuting the pattern table\<close>

lemma find_filter_hd:
  "List.find P xs = (case filter P xs of [] \<Rightarrow> None | x # _ \<Rightarrow> Some x)"
  by (induction xs) simp_all

lemma filter_le1_perm:
  assumes "length (filter P xs) \<le> 1" and "mset ys = mset xs"
  shows "filter P ys = filter P xs"
proof -
  from assms(2) have m: "mset (filter P ys) = mset (filter P xs)"
    by simp
  show ?thesis
  proof (cases "filter P xs")
    case Nil
    with m show ?thesis by simp
  next
    case (Cons x t)
    with assms(1) have x: "filter P xs = [x]"
      by simp
    with m have "mset (filter P ys) = {#x#}"
      by simp
    then have "filter P ys = [x]"
      by (cases "filter P ys") (auto simp add: add_mset_eq_single)
    with x show ?thesis
      by simp
  qed
qed

lemma filter_variants_le1: "length (filter (\<lambda>re. MatchString re s) iso8601Variants) \<le> 1"
proof (cases "\<exists>re \<in> set iso8601Variants. MatchString re s")
  case False
  then have "filter (\<lambda>re. MatchString re s) iso8601Variants = []"
    by (simp add: filter_empty_conv)
  then show ?thesis by simp
next
  case True
  then consider hy y m d where "s = datestamp hy y m d" "date_ok y m d"
    | hy co y m d sp h mi se fr z where "s = timestamp hy co y m d sp h mi se fr z"
        "stamp_ok y m d sp h mi se fr z"
    unfolding match_cases by blast
  then show ?thesis
  proof cases
    case 1
    then show ?thesis
      by (simp add: variants_eq MatchString_dt_datestamp MatchString_d_datestamp)
  next
    case 2
    then show ?thesis
      by (simp add: variants_eq MatchString_dt_timestamp MatchString_d_timestamp)
  qed
qed

subsection \<open>The conversion of the offset\<close>

lemma digit_char_val: "is_digit a \<Longrightarrow> digit_char (nat (digit_val a)) = a"
proof -
  assume "is_digit a"
  then have "48 \<le> (of_char a :: nat)"
    unfolding is_digit_def of_nat_of_char [of a, where ?'a = int, symmetric] by simp
  then have "48 + (of_char a - 48) = (of_char a :: nat)"
    by simp
  moreover have "nat (digit_val a) = (of_char a :: nat) - 48"
    unfolding digit_val_def of_nat_of_char [of a, where ?'a = int, symmetric] by simp
  ultimately show ?thesis
    by (simp add: digit_char_def)
qed

lemma fmt_02d_dec2:
  assumes "is_digit a" and "is_digit b"
  shows "fmt_02d (dec [a, b]) = [a, b]"
proof -
  define p where "p = nat (digit_val a)"
  define q where "q = nat (digit_val b)"
  from assms have pq: "p \<le> 9" "q \<le> 9" "digit_val a = int p" "digit_val b = int q"
    by (auto simp add: p_def q_def is_digit_def digit_val_def)
  have a: "digit_char p = a" and b: "digit_char q = b"
    using assms by (simp_all add: p_def q_def digit_char_val)
  have d: "dec [a, b] = int (10 * p + q)"
    by (simp add: dec_def pq)
  have "dec_str (10 * p + q) = (if p = 0 then [b] else [a, b])"
  proof (cases "p = 0")
    case True
    with pq show ?thesis
      by (simp add: dec_str.simps [of q] b)
  next
    case False
    with pq have "(10 * p + q) div 10 = p" "(10 * p + q) mod 10 = q" "\<not> 10 * p + q < 10" "p < 10"
      by simp_all
    then show ?thesis
      using False by (simp add: dec_str.simps [of "10 * p + q"] dec_str.simps [of p] a b)
  qed
  moreover have "p = 0 \<Longrightarrow> a = CHR ''0''"
    using pq(3) by (simp add: digit_val_def chr_simps)
  moreover have "0 \<le> dec [a, b]" "nat (dec [a, b]) = 10 * p + q"
    unfolding d by simp_all
  ultimately show ?thesis
    by (simp add: fmt_02d_def)
qed

lemma zone_of_tz:
  assumes "tz_ok z"
  shows "zone_of z =
    (if z = ''Z'' then Return time_UTC
     else if 5 \<le> length z then Return (time_FixedZone (zone_label z) (offset_seconds z))
     else if length z = 3 then Panic IndexOutOfRange
     else Panic SliceBoundsOutOfRange)"
proof (cases "z = ''Z''")
  case True
  then show ?thesis
    by (simp add: zone_of_def)
next
  case False
  with assms obtain sg a b r where z: "z = sg # a # b # r" and sg: "sg = CHR ''-'' \<or> sg = CHR ''+''"
    and a: "a = CHR ''0'' \<or> a = CHR ''1''" and b: "is_digit b" and r: "tz_min_ok r"
    by (cases z; cases "tl z"; cases "tl (tl z)") (auto simp add: tz_ok_def)
  from a have da: "is_digit a"
    by (auto simp add: is_digit_def)
  from da b have h: "atoip [a, b] = Return (dec [a, b])"
    by (intro atoip_digits) simp_all
  from r consider "r = []" | "r = '':''" | c d where "r = [c, d]" "is_digit c" "is_digit d"
    | c d where "r = [CHR '':'', c, d]" "is_digit c" "is_digit d"
    by (auto simp add: tz_min_ok_def field2_def length_Suc_conv numeral_eq_Suc)
  then show ?thesis
  proof cases
    case 1
    with z h False show ?thesis
      by (simp add: zone_of_def fixed_zone_def index_def slice_def)
  next
    case 2
    with z h False show ?thesis
      by (simp add: zone_of_def fixed_zone_def index_def slice_def)
  next
    case 3
    then have m: "atoip [c, d] = Return (dec [c, d])"
      by (intro atoip_digits) simp_all
    from 3 have "c \<noteq> CHR '':''"
      by (auto simp add: is_digit_def)
    with z h m 3 False da b show ?thesis
      by (simp add: zone_of_def fixed_zone_def index_def slice_def zone_name_def fmt_02d_dec2
          zone_label_def offset_seconds_def)
  next
    case 4
    then have m: "atoip [c, d] = Return (dec [c, d])"
      by (intro atoip_digits) simp_all
    with z h m 4 False da b show ?thesis
      by (simp add: zone_of_def fixed_zone_def index_def slice_def zone_name_def fmt_02d_dec2
          zone_label_def offset_seconds_def)
  qed
qed

subsection \<open>The message of the error\<close>










section \<open>The claims\<close>

text \<open>
  C1.  An input whose date segment or whose time segment mixes separators matches
  none of the six patterns, and the parser returns its error.  The two segments are
  judged apart: either one mixing is enough.
\<close>

theorem mixed_separators_rejected:
  assumes "mixed_date s \<or> mixed_time s"
  shows "list_all (\<lambda>re. \<not> MatchString re s) iso8601Variants \<and>
         ParseISO8601Timestamp s =
           Return (zero_Time, Some (stacktrace_NewError ''Invalid ISO 8601 timestamp: %#v'' s))"
proof -
  from assms accepted_not_mixed [of s] have "\<not> (\<exists>re \<in> set iso8601Variants. MatchString re s)"
    by blast
  with parse_nomatch [OF this] show ?thesis
    by (simp add: list_all_iff)
qed

theorem mixed_separators_rejected_witness:
  "mixed_date ''1900-1231T00:10:20Z'' \<and>
   ParseISO8601Timestamp ''1900-1231T00:10:20Z'' =
     Return (zero_Time,
             Some (stacktrace_NewError ''Invalid ISO 8601 timestamp: %#v'' ''1900-1231T00:10:20Z'')) \<and>
   mixed_time ''1900-12-31T00:1020Z'' \<and>
   ParseISO8601Timestamp ''1900-12-31T00:1020Z'' =
     Return (zero_Time,
             Some (stacktrace_NewError ''Invalid ISO 8601 timestamp: %#v'' ''1900-12-31T00:1020Z''))"
proof -
  have 1: "mixed_date ''1900-1231T00:10:20Z''"
    by (simp add: mixed_date_def date_segment_def is_sep_def)
  have 2: "mixed_time ''1900-12-31T00:1020Z''"
    by (simp add: mixed_time_def time_segment_def is_sep_def is_point_def)
  from 1 2 mixed_separators_rejected [of "''1900-1231T00:10:20Z''"]
    mixed_separators_rejected [of "''1900-12-31T00:1020Z''"]
  show ?thesis
    by simp
qed

text \<open>
  C2.  An input that is well-formed up to its offset and whose offset is a sign and a
  two-digit hour, with nothing after it, matches its pattern; the parser then reads
  the fourth byte of the three-byte offset and panics.  It does not return a time.
\<close>

theorem hour_only_offset_panics:
  assumes "stamp_ok y m d sp h mi se fr z" and "length z = 3"
  shows "ParseISO8601Timestamp (timestamp hy co y m d sp h mi se fr z) = Panic IndexOutOfRange"
proof -
  from assms(2) obtain sg a b where z: "z = [sg, a, b]"
    by (auto simp add: length_Suc_conv numeral_eq_Suc)
  from assms(1) have "tz_ok z"
    by (simp add: stamp_ok_def)
  with z have "is_digit a" "is_digit b"
    by (auto simp add: tz_ok_def is_digit_def)
  then have "atoip [a, b] = Return (dec [a, b])"
    by (intro atoip_digits) simp_all
  then have "zone_of z = Panic IndexOutOfRange"
    by (simp add: z zone_of_def fixed_zone_def index_def slice_def)
  then show ?thesis
    by (simp add: parse_timestamp [OF assms(1)])
qed

theorem hour_only_offset_panics_witness:
  "stamp_ok ''2020'' ''02'' ''17'' CHR ''T'' ''11'' ''39'' ''27'' [] ''+05'' \<and>
   ParseISO8601Timestamp ''2020-02-17T11:39:27+05'' = Panic IndexOutOfRange"
proof -
  have ok: "stamp_ok ''2020'' ''02'' ''17'' CHR ''T'' ''11'' ''39'' ''27'' [] ''+05''"
    by (simp add: stamp_defs)
  from hour_only_offset_panics [OF ok, of True True] ok show ?thesis
    by (simp add: stamp_text)
qed

text \<open>
  C3.  The year of every accepted input lies between 0 and 9999: the year pattern is
  four digits, whatever they are.  The lower bound is 0 and not 1, since the year
  \<^verbatim>\<open>0000\<close> is among them.
\<close>

theorem year_range:
  assumes "ParseISO8601Timestamp s = Return (tm, None)"
  shows "0 \<le> date_year tm \<and> date_year tm \<le> 9999"
proof -
  from parse_accepted [OF assms] obtain y where "year_ok y" and "date_year tm = dec y"
    by (auto simp add: date_ok_def stamp_ok_def)
  then have "0 \<le> dec y \<and> dec y < 10 ^ 4"
    using dec_bounds [of y] by (simp add: year_ok_def)
  with \<open>date_year tm = dec y\<close> show ?thesis
    by simp
qed

theorem year_range_witness:
  "ParseISO8601Timestamp ''9999-12-31'' = Return (time_Date 9999 12 31 0 0 0 0 time_UTC, None) \<and>
   0 \<le> date_year (time_Date 9999 12 31 0 0 0 0 time_UTC) \<and>
   date_year (time_Date 9999 12 31 0 0 0 0 time_UTC) \<le> 9999"
proof -
  have ok: "date_ok ''9999'' ''12'' ''31''"
    by (simp add: stamp_defs)
  from parse_datestamp [OF ok, of True]
  have p: "ParseISO8601Timestamp ''9999-12-31'' =
           Return (time_Date 9999 12 31 0 0 0 0 time_UTC, None)"
    by (simp add: stamp_text dec_def digit_val_def)
  from year_range [OF p] p show ?thesis
    by simp
qed

text \<open>
  The input \<^verbatim>\<open>0000-01-01\<close> is accepted and its year is 0, below 1.
\<close>

theorem year_0000_accepted:
  "ParseISO8601Timestamp ''0000-01-01'' = Return (time_Date 0 1 1 0 0 0 0 time_UTC, None) \<and>
   date_year (time_Date 0 1 1 0 0 0 0 time_UTC) < 1"
proof -
  have ok: "date_ok ''0000'' ''01'' ''01''"
    by (simp add: stamp_defs)
  from parse_datestamp [OF ok, of True] show ?thesis
    by (simp add: stamp_text dec_def digit_val_def)
qed




text \<open>
  C5.  For every accepted input the nanoseconds are the digits after the point or
  comma, padded on the right with zeros to nine digits and read as a decimal number;
  with no fraction they are zero.  Those digits, at most nine, are what the seventh
  group of the matching date-time pattern captures.
\<close>

theorem nanoseconds_padded:
  assumes "ParseISO8601Timestamp s = Return (tm, None)"
  shows "length (frac_digits s) \<le> 9 \<and> list_all is_digit (frac_digits s) \<and>
         date_nsec tm =
           (if frac_digits s = [] then 0
            else dec (frac_digits s @ replicate (9 - length (frac_digits s)) CHR ''0'')) \<and>
         (\<forall>re \<in> set iso8601Variants.
            MatchString re s \<and> 4 < length (FindStringSubmatch re s) \<longrightarrow>
            FindStringSubmatch re s ! 7 = frac_digits s)"
proof -
  from parse_accepted [OF assms] consider hy y m d where "s = datestamp hy y m d" "date_ok y m d"
      "tm = time_Date (dec y) (dec m) (dec d) 0 0 0 0 time_UTC"
    | hy co y m d sp h mi se fr z loc where "s = timestamp hy co y m d sp h mi se fr z"
      "stamp_ok y m d sp h mi se fr z"
      "tm = time_Date (dec y) (dec m) (dec d) (dec h) (dec mi) (dec se) (nanosec fr) loc"
    by blast
  then show ?thesis
  proof cases
    case 1
    have "\<not> 4 < length (FindStringSubmatch re s)" if "re \<in> set iso8601Variants" "MatchString re s"
      for re
    proof -
      from that 1 have "re = variant_d hy"
        by (auto simp add: variants_eq MatchString_dt_datestamp MatchString_d_datestamp)
      with 1 show ?thesis
        by (simp add: FindStringSubmatch_d)
    qed
    with 1 show ?thesis
      by (auto simp add: frac_digits_datestamp)
  next
    case 2
    then have fr: "frac_ok fr"
      by (simp add: stamp_ok_def)
    have f: "frac_digits s = tl fr"
      using 2 by (simp add: frac_digits_timestamp)
    from fr have "length (tl fr) \<le> 9 \<and> list_all is_digit (tl fr)"
      by (cases fr) (simp_all add: frac_ok_def)
    moreover have "FindStringSubmatch re s ! 7 = tl fr"
      if "re \<in> set iso8601Variants" "MatchString re s" for re
    proof -
      from that 2 have "re = variant_dt hy co"
        by (auto simp add: variants_eq MatchString_dt_timestamp MatchString_d_timestamp)
      with 2 show ?thesis
        by (simp add: FindStringSubmatch_dt)
    qed
    ultimately show ?thesis
      using 2(3) by (simp add: f nanosec_def)
  qed
qed

theorem nanoseconds_padded_witness:
  "ParseISO8601Timestamp ''2020-02-17T11:39:27.6Z'' =
     Return (time_Date 2020 2 17 11 39 27 600000000 time_UTC, None) \<and>
   frac_digits ''2020-02-17T11:39:27.6Z'' = ''6'' \<and>
   dec (''6'' @ replicate (9 - length ''6'') CHR ''0'') = 600000000 \<and>
   MatchString (hd iso8601Variants) ''2020-02-17T11:39:27.6Z'' \<and>
   FindStringSubmatch (hd iso8601Variants) ''2020-02-17T11:39:27.6Z'' ! 7 = ''6'' \<and>
   ParseISO8601Timestamp ''2020-02-17T11:39:27.658731Z'' =
     Return (time_Date 2020 2 17 11 39 27 658731000 time_UTC, None) \<and>
   ParseISO8601Timestamp ''2020-02-17T11:39:27Z'' =
     Return (time_Date 2020 2 17 11 39 27 0 time_UTC, None)"
proof -
  have ok1: "stamp_ok ''2020'' ''02'' ''17'' CHR ''T'' ''11'' ''39'' ''27'' ''.6'' ''Z''"
    and ok2: "stamp_ok ''2020'' ''02'' ''17'' CHR ''T'' ''11'' ''39'' ''27'' ''.658731'' ''Z''"
    and ok3: "stamp_ok ''2020'' ''02'' ''17'' CHR ''T'' ''11'' ''39'' ''27'' [] ''Z''"
    by (simp_all add: stamp_defs)
  have p1: "ParseISO8601Timestamp ''2020-02-17T11:39:27.6Z'' =
            Return (time_Date 2020 2 17 11 39 27 600000000 time_UTC, None)"
    using parse_timestamp [OF ok1, of True True]
    by (simp add: stamp_text zone_of_def nanosec_def dec_def digit_val_def eval_nat_numeral)
  have p2: "ParseISO8601Timestamp ''2020-02-17T11:39:27.658731Z'' =
            Return (time_Date 2020 2 17 11 39 27 658731000 time_UTC, None)"
    using parse_timestamp [OF ok2, of True True]
    by (simp add: stamp_text zone_of_def nanosec_def dec_def digit_val_def eval_nat_numeral)
  have p3: "ParseISO8601Timestamp ''2020-02-17T11:39:27Z'' =
            Return (time_Date 2020 2 17 11 39 27 0 time_UTC, None)"
    using parse_timestamp [OF ok3, of True True]
    by (simp add: stamp_text zone_of_def nanosec_def dec_def digit_val_def)
  have f: "frac_digits ''2020-02-17T11:39:27.6Z'' = ''6''"
    by (simp add: frac_digits_def is_point_def is_digit_def)
  have m: "MatchString (hd iso8601Variants) ''2020-02-17T11:39:27.6Z''"
    using MatchString_dt_timestamp [OF ok1, of True True True True]
    by (simp add: variants_eq stamp_text)
  have g: "4 < length (FindStringSubmatch (hd iso8601Variants) ''2020-02-17T11:39:27.6Z'')"
    using FindStringSubmatch_dt [OF ok1, of True True]
    by (simp add: variants_eq stamp_text)
  have h: "hd iso8601Variants \<in> set iso8601Variants"
    by (simp add: variants_eq)
  from nanoseconds_padded [OF p1] p1 p2 p3 f m g h show ?thesis
    by simp
qed

text \<open>
  C6.  An input that is well-formed and has \<^verbatim>\<open>60\<close> or \<^verbatim>\<open>61\<close> for its seconds
  matches a pattern.  With the offset \<^verbatim>\<open>Z\<close>, or an offset that has its minute
  digits, the parser returns the time that \<^verbatim>\<open>time.Date\<close> builds from that number
  of seconds and the minute as written, in UTC or in the fixed zone of the offset.  With
  an offset of sign and hour only, the parser panics at \<^verbatim>\<open>tzStr[3]\<close> (at
  \<^verbatim>\<open>tzStr[4:6]\<close> when a colon follows the hour) and never calls
  \<^verbatim>\<open>time.Date\<close>.
\<close>

theorem leap_second_passed_on:
  assumes "date_ok y m d" and "is_sep sp" and "field2 0 23 h" and "field2 0 59 mi"
    and "se = ''60'' \<or> se = ''61''" and "frac_ok fr" and "tz_ok z"
  shows "(\<exists>re \<in> set iso8601Variants. MatchString re (timestamp hy co y m d sp h mi se fr z)) \<and>
         ParseISO8601Timestamp (timestamp hy co y m d sp h mi se fr z) =
           (if z = ''Z'' \<or> 5 \<le> length z then
              Return (time_Date (dec y) (dec m) (dec d) (dec h) (dec mi)
                        (if se = ''60'' then 60 else 61) (nanosec fr)
                        (if z = ''Z'' then time_UTC
                         else time_FixedZone (zone_label z) (offset_seconds z)), None)
            else if length z = 3 then Panic IndexOutOfRange
            else Panic SliceBoundsOutOfRange)"
proof -
  from assms(5) have se: "field2 0 61 se" "dec se = (if se = ''60'' then 60 else 61)"
    by (auto simp add: field2_def is_digit_def dec_def digit_val_def)
  with assms have ok: "stamp_ok y m d sp h mi se fr z"
    by (simp add: stamp_ok_def time_ok_def)
  have "\<exists>re \<in> set iso8601Variants. MatchString re (timestamp hy co y m d sp h mi se fr z)"
    unfolding match_cases using ok by blast
  then show ?thesis
    by (simp add: parse_timestamp [OF ok] se(2) zone_of_tz [OF assms(7)])
qed

theorem leap_second_passed_on_witness:
  "ParseISO8601Timestamp ''1900-12-31T00:10:60Z'' =
     Return (time_Date 1900 12 31 0 10 60 0 time_UTC, None) \<and>
   ParseISO8601Timestamp ''19001231T001061Z'' =
     Return (time_Date 1900 12 31 0 10 61 0 time_UTC, None) \<and>
   ParseISO8601Timestamp ''1900-12-31T00:10:61-02:30'' =
     Return (time_Date 1900 12 31 0 10 61 0 (time_FixedZone ''-02:30'' (- 9000)), None) \<and>
   ParseISO8601Timestamp ''1900-12-31T00:10:60+0530'' =
     Return (time_Date 1900 12 31 0 10 60 0 (time_FixedZone ''+05:30'' 19800), None) \<and>
   ParseISO8601Timestamp ''1900-12-31T00:10:60+05'' = Panic IndexOutOfRange"
proof -
  have d: "date_ok ''1900'' ''12'' ''31''" and s: "is_sep CHR ''T''" and h: "field2 0 23 ''00''"
    and mi: "field2 0 59 ''10''" and f: "frac_ok []" and z: "tz_ok ''Z''"
    and z1: "tz_ok ''-02:30''" and z2: "tz_ok ''+0530''" and z3: "tz_ok ''+05''"
    by (simp_all add: stamp_defs)
  from leap_second_passed_on [OF d s h mi _ f z, of "''60''" True True]
    leap_second_passed_on [OF d s h mi _ f z, of "''61''" False False]
    leap_second_passed_on [OF d s h mi _ f z1, of "''61''" True True]
    leap_second_passed_on [OF d s h mi _ f z2, of "''60''" True True]
    leap_second_passed_on [OF d s h mi _ f z3, of "''60''" True True]
  show ?thesis
    by (simp add: stamp_text nanosec_def dec_def digit_val_def zone_label_def offset_seconds_def)
qed

text \<open>
  C7.  At most one of the six patterns matches any input, so the order in which the
  loop tries them does not change what the parser returns.
\<close>

theorem patterns_mutually_exclusive:
  "length (filter (\<lambda>re. MatchString re s) iso8601Variants) \<le> 1 \<and>
   (mset vs = mset iso8601Variants \<longrightarrow>
      try_variants vs s
        (Return (zero_Time, Some (stacktrace_NewError ''Invalid ISO 8601 timestamp: %#v'' s))) =
      ParseISO8601Timestamp s)"
proof (intro conjI impI)
  show "length (filter (\<lambda>re. MatchString re s) iso8601Variants) \<le> 1"
    by (rule filter_variants_le1)
next
  assume "mset vs = mset iso8601Variants"
  with filter_variants_le1 [of s]
  have "filter (\<lambda>re. MatchString re s) vs = filter (\<lambda>re. MatchString re s) iso8601Variants"
    by (rule filter_le1_perm)
  then show "try_variants vs s
        (Return (zero_Time, Some (stacktrace_NewError ''Invalid ISO 8601 timestamp: %#v'' s))) =
      ParseISO8601Timestamp s"
    by (simp add: ParseISO8601Timestamp_def try_variants_find find_filter_hd)
qed

theorem patterns_mutually_exclusive_witness:
  "length (filter (\<lambda>re. MatchString re ''19001231T001020Z'') iso8601Variants) \<le> 1 \<and>
   try_variants (rev iso8601Variants) ''19001231T001020Z''
     (Return (zero_Time,
        Some (stacktrace_NewError ''Invalid ISO 8601 timestamp: %#v'' ''19001231T001020Z''))) =
   Return (time_Date 1900 12 31 0 10 20 0 time_UTC, None)"
proof -
  have ok: "stamp_ok ''1900'' ''12'' ''31'' CHR ''T'' ''00'' ''10'' ''20'' [] ''Z''"
    by (simp add: stamp_defs)
  have p: "ParseISO8601Timestamp ''19001231T001020Z'' =
           Return (time_Date 1900 12 31 0 10 20 0 time_UTC, None)"
    using parse_timestamp [OF ok, of False False]
    by (simp add: stamp_text zone_of_def nanosec_def dec_def digit_val_def)
  have "mset (rev iso8601Variants) = mset iso8601Variants"
    by simp
  with patterns_mutually_exclusive [of "''19001231T001020Z''" "rev iso8601Variants"] p
  show ?thesis
    by simp
qed

text \<open>
  C8.  Unmarshalling the JSON literal \<^verbatim>\<open>null\<close> does nothing: the method returns no
  error and the receiver keeps the value it had.
\<close>

theorem UnmarshalJSON_null: "UnmarshalJSON t ''null'' = Return (t, None)"
  by (simp add: UnmarshalJSON_def)

theorem UnmarshalJSON_null_witness:
  "UnmarshalJSON \<lparr>Time = time_Date 2001 1 1 3 15 45 0 time_UTC\<rparr> ''null'' =
     Return (\<lparr>Time = time_Date 2001 1 1 3 15 45 0 time_UTC\<rparr>, None)"
  by (rule UnmarshalJSON_null)

text \<open>
  C9.  A JSON input that is neither \<^verbatim>\<open>null\<close> nor a string in matching double or
  matching single quotes makes \<^verbatim>\<open>UnmarshalJSON\<close> return the parse error
  \<^verbatim>\<open>timestamp must be a JSON string literal\<close>, with the receiver untouched; a
  quoted input has its quotes stripped and the text between them goes to the parser,
  whose time and error the method stores and returns.
\<close>

theorem UnmarshalJSON_string_literal:
  "(data \<noteq> ''null'' \<and> \<not> quoted data \<longrightarrow>
      UnmarshalJSON t data =
        Return (t, Some (ParseError ''ISO 8601'' data '''' ''''
                           '': timestamp must be a JSON string literal''))) \<and>
   (quoted data \<longrightarrow>
      UnmarshalJSON t data =
        obind (ParseISO8601Timestamp_pe (butlast (tl data)))
          (\<lambda>(tm, err). Return (t\<lparr>Time := tm\<rparr>, err)))"
  by (simp add: UnmarshalJSON_not_string UnmarshalJSON_quoted)

theorem UnmarshalJSON_string_literal_witness:
  "UnmarshalJSON \<lparr>Time = time_Date 2001 1 1 3 15 45 0 time_UTC\<rparr> ''1'' =
     Return (\<lparr>Time = time_Date 2001 1 1 3 15 45 0 time_UTC\<rparr>,
             Some (ParseError ''ISO 8601'' ''1'' '''' ''''
                     '': timestamp must be a JSON string literal'')) \<and>
   UnmarshalJSON \<lparr>Time = time_Date 2001 1 1 3 15 45 0 time_UTC\<rparr>
       [CHR 0x22, CHR ''1'', CHR ''9'', CHR ''0'', CHR ''0'', CHR ''1'', CHR ''2'', CHR ''3'',
        CHR ''1'', CHR 0x22] =
     Return (\<lparr>Time = time_Date 1900 12 31 0 0 0 0 time_UTC\<rparr>, None)"
proof -
  have 1: "''1'' \<noteq> ''null'' \<and> \<not> quoted ''1''"
    by (simp add: quoted_def)
  have 2: "quoted [CHR 0x22, CHR ''1'', CHR ''9'', CHR ''0'', CHR ''0'', CHR ''1'', CHR ''2'',
                   CHR ''3'', CHR ''1'', CHR 0x22]"
    by (simp add: quoted_def)
  have d: "date_ok ''1900'' ''12'' ''31''"
    by (simp add: date_ok_def year_ok_def field2_def is_digit_def dec_def digit_val_def)
  have 3: "ParseISO8601Timestamp_pe ''19001231'' =
           Return (time_Date 1900 12 31 0 0 0 0 time_UTC, None)"
    using try_variants_datestamp [OF d, of False]
    by (simp add: ParseISO8601Timestamp_pe_def datestamp_def dash_def dec_def digit_val_def)
  show ?thesis
    using UnmarshalJSON_string_literal
            [of "''1''" "\<lparr>Time = time_Date 2001 1 1 3 15 45 0 time_UTC\<rparr>"]
          UnmarshalJSON_string_literal
            [of "[CHR 0x22, CHR ''1'', CHR ''9'', CHR ''0'', CHR ''0'', CHR ''1'', CHR ''2'',
                  CHR ''3'', CHR ''1'', CHR 0x22]"
                "\<lparr>Time = time_Date 2001 1 1 3 15 45 0 time_UTC\<rparr>"]
          1 2
    by (simp add: 3)
qed

text \<open>
  C10.  When the parser rejects the text, \<^verbatim>\<open>UnmarshalText\<close> and
  \<^verbatim>\<open>UnmarshalJSON\<close> (on that text in quotes) have already stored the parser's
  time, the zero time, in the receiver when they return the error: the value the
  receiver had is lost.
\<close>

theorem Unmarshal_error_overwrites:
  assumes "ParseISO8601Timestamp_pe s = Return (tm, Some e)"
    and "q = CHR 0x22 \<or> q = CHR 0x27"
  shows "UnmarshalText t s = Return (t\<lparr>Time := zero_Time\<rparr>, Some e) \<and>
         UnmarshalJSON t (q # s @ [q]) = Return (t\<lparr>Time := zero_Time\<rparr>, Some e)"
proof -
  from assms(1) have tm: "tm = zero_Time"
    by (simp add: parse_pe_error)
  from assms(2) have qd: "quoted (q # s @ [q])"
    by (auto simp add: quoted_def)
  have "butlast (tl (q # s @ [q])) = s"
    by simp
  with UnmarshalJSON_quoted [OF qd, of t]
  have "UnmarshalJSON t (q # s @ [q]) =
        obind (ParseISO8601Timestamp_pe s) (\<lambda>(tm, err). Return (t\<lparr>Time := tm\<rparr>, err))"
    by simp
  with assms(1) tm show ?thesis
    by (simp add: UnmarshalText_def)
qed

theorem Unmarshal_error_overwrites_witness:
  "UnmarshalText \<lparr>Time = time_Date 2001 1 1 3 15 45 0 time_UTC\<rparr> ''x'' =
     Return (\<lparr>Time = zero_Time\<rparr>,
             Some (ParseError ''ISO 8601'' ''x'' '''' '''' '': timestamp is not in ISO 8601 format'')) \<and>
   UnmarshalJSON \<lparr>Time = time_Date 2001 1 1 3 15 45 0 time_UTC\<rparr> [CHR 0x22, CHR ''x'', CHR 0x22] =
     Return (\<lparr>Time = zero_Time\<rparr>,
             Some (ParseError ''ISO 8601'' ''x'' '''' '''' '': timestamp is not in ISO 8601 format''))"
proof -
  have "\<not> (\<exists>re \<in> set iso8601Variants. MatchString re ''x'')"
    by code_simp
  then have "ParseISO8601Timestamp_pe ''x'' =
     Return (zero_Time,
             Some (ParseError ''ISO 8601'' ''x'' '''' '''' '': timestamp is not in ISO 8601 format''))"
    by (simp add: parse_pe_error)
  from Unmarshal_error_overwrites [OF this, of "CHR 0x22" "\<lparr>Time = time_Date 2001 1 1 3 15 45 0 time_UTC\<rparr>"]
  show ?thesis
    by simp
qed

end
